theory Spec2Isabelle
  imports Main
begin

section \<open>Interactive test builder: a shallow embedding\<close>

text \<open>
  The definitions below embed the parts of
  \<^verbatim>\<open>server/src/services/interactiveTestBuilder.ts\<close> that select, name, merge and
  re-verify element descriptors, look page objects up by URL, and record test steps,
  together with the session-deleting route of the interactive router.

  Conventions of the embedding:
  \<^item> a JavaScript string is a \<open>string\<close>; one \<open>char\<close> stands for one code unit, so
    the model covers strings whose code units are below 256;
  \<^item> \<open>null\<close> and \<open>undefined\<close> are \<open>None\<close>; a value is truthy as JavaScript has it
    (a string is truthy when it is not empty);
  \<^item> \<open>new Date()\<close> and \<open>Date.now()\<close> are a parameter \<open>now\<close> of the operation that
    reads the clock (milliseconds, one reading per call);
  \<^item> what the browser answers (DOM queries, whether a click or a screenshot succeeds)
    is an explicit input of the operation that asks;
  \<^item> a thrown exception is the \<open>Inl\<close> branch of the result.
\<close>

datatype error =
    SessionNotFound
  | ElementNotFound
  | DriverError
  | TypeError
  | InvalidRegExp
  | InvalidUrl

subsection \<open>Strings\<close>

definition truthy :: "string option \<Rightarrow> bool" where
  "truthy v = (case v of None \<Rightarrow> False | Some s \<Rightarrow> s \<noteq> [])"

text \<open>\<open>a || b\<close> on values that are strings or \<open>null\<close>.\<close>

definition or_else :: "string option \<Rightarrow> string option \<Rightarrow> string option" where
  "or_else a b = (if truthy a then a else b)"

text \<open>\<open>String.prototype.trim\<close>: the white space and line terminators below 256.\<close>

definition is_ws :: "char \<Rightarrow> bool" where
  "is_ws c = (c \<in> set [CHR 0x09, CHR 0x0A, CHR 0x0B, CHR 0x0C, CHR 0x0D, CHR 0x20, CHR 0xA0])"

definition trim :: "string \<Rightarrow> string" where
  "trim s = rev (dropWhile is_ws (rev (dropWhile is_ws s)))"

text \<open>\<open>String.prototype.toLowerCase\<close> on code units below 256: the ASCII capitals and
  the Latin-1 capitals (all but the multiplication sign) move up by 32.\<close>

definition lower_char :: "char \<Rightarrow> char" where
  "lower_char c =
     (let n = of_char c :: nat in
      if (65 \<le> n \<and> n \<le> 90) \<or> (192 \<le> n \<and> n \<le> 222 \<and> n \<noteq> 215)
      then char_of (n + 32) else c)"

definition toLowerCase :: "string \<Rightarrow> string" where
  "toLowerCase s = map lower_char s"

text \<open>A value inside a template literal: \<open>`${v}`\<close> prints \<open>null\<close> as the word.\<close>

definition interp :: "string option \<Rightarrow> string" where
  "interp v = (case v of None \<Rightarrow> ''null'' | Some s \<Rightarrow> s)"

subsection \<open>Numbers and maps\<close>

text \<open>
  A JavaScript number that holds a whole number is an \<open>int\<close>. The whole numbers up to
  \<open>2^53\<close> in magnitude are all doubles; above, a double has 53 significant bits, and
  the result of an addition is rounded to the nearest double, a tie going to the even
  significand. (Numbers beyond the largest double are outside the model.)
\<close>

function significant_bits :: "nat \<Rightarrow> nat" where
  "significant_bits n = (if n = 0 then 0 else Suc (significant_bits (n div 2)))"
  by pat_completeness auto
termination
  by (relation "measure (\<lambda>n. n)") auto

declare significant_bits.simps [simp del]

definition round_magnitude :: "nat \<Rightarrow> nat" where
  "round_magnitude n =
     (if n \<le> 2 ^ 53 then n
      else
        let ulp = 2 ^ (significant_bits n - 53); q = n div ulp; r = n mod ulp
        in if 2 * r < ulp \<or> (2 * r = ulp \<and> even q) then q * ulp else (q + 1) * ulp)"

definition to_double :: "int \<Rightarrow> int" where
  "to_double x = (if x < 0 then - int (round_magnitude (nat (- x))) else int (round_magnitude (nat x)))"

text \<open>\<open>x++\<close> on a number.\<close>

definition increment :: "int \<Rightarrow> int" where
  "increment x = to_double (x + 1)"

text \<open>\<open>Map.prototype.set\<close>, and the assignment \<open>object[key] = value\<close>: an existing key
  keeps its place.\<close>

fun map_set :: "('k \<times> 'v) list \<Rightarrow> 'k \<Rightarrow> 'v \<Rightarrow> ('k \<times> 'v) list" where
  "map_set [] k v = [(k, v)]"
| "map_set ((k', v') # m) k v = (if k' = k then (k, v) # m else (k', v') # map_set m k v)"

subsection \<open>The DOM as the page reports it\<close>

text \<open>
  A form exposes each of its controls as a property under the control's \<open>name\<close> or
  \<open>id\<close>, in place of its own property or method of that name: on a form that holds
  \<open><input name="id">\<close>, \<open>form.id\<close> is the input. Of such a control the code can see the
  string that a template literal makes of it (\<open>[object HTMLInputElement]\<close>) and,
  through \<open>Array.from\<close>, its items with the strings found under \<open>name\<close> and \<open>value\<close>
  (no item for a control without a length).
\<close>

record control =
  control_string :: string
  control_items :: "(string \<times> string) list"

text \<open>
  One element of the live document, with what the code reads of it: its identity
  (\<open>node\<close>, for the \<open>Set<Element>\<close> of processed nodes), \<open>tagName\<close> (upper case, as
  the DOM gives it), the attribute list, \<open>textContent\<close>, \<open>classList\<close>, the size of
  \<open>getBoundingClientRect()\<close> (only compared with zero), the inline style, and in
  \<open>named\<close> the controls that the element exposes by name when it is a form (none for
  any other element).
\<close>

record html_element =
  node :: nat
  tagName :: string
  attrs :: "(string \<times> string) list"
  textContent :: string
  classList :: "string list"
  rect_width :: nat
  rect_height :: nat
  style_display :: string
  style_visibility :: string
  named :: "(string \<times> control) list"

text \<open>The control that stands in the way of the element's own property \<open>p\<close>.\<close>

definition shadowed :: "html_element \<Rightarrow> string \<Rightarrow> control option" where
  "shadowed el p = map_of (named el) p"

text \<open>The attribute itself, as \<open>Element.prototype.getAttribute\<close> reads it.\<close>

definition getAttribute :: "html_element \<Rightarrow> string \<Rightarrow> string option" where
  "getAttribute el n = map_of (attrs el) n"

text \<open>A value that is a string or an object; of an object, the string that a template
  literal makes of it.\<close>

datatype js_value = JsString string | JsObject string

fun js_truthy :: "js_value \<Rightarrow> bool" where
  "js_truthy (JsString s) = (s \<noteq> [])"
| "js_truthy (JsObject r) = True"

fun js_interp :: "js_value \<Rightarrow> string" where
  "js_interp (JsString s) = s"
| "js_interp (JsObject r) = r"

text \<open>The property \<open>el.id\<close>: the control named \<open>id\<close> when there is one; otherwise it
  reflects the \<open>id\<close> attribute, and is the empty string without one.\<close>

definition el_id :: "html_element \<Rightarrow> js_value" where
  "el_id el =
     (case shadowed el ''id'' of
        Some c \<Rightarrow> JsObject (control_string c)
      | None \<Rightarrow> JsString (case getAttribute el ''id'' of None \<Rightarrow> [] | Some v \<Rightarrow> v))"

subsection \<open>Selector generation\<close>

text \<open>
  \<open>generateBestSelector\<close> (inside \<open>extractAllElements\<close>). Calling \<open>el.getAttribute\<close>,
  \<open>el.textContent.trim\<close> or \<open>el.tagName.toLowerCase\<close> on an element whose property of
  that name is a control throws a \<open>TypeError\<close>; \<open>el.tagName === 'BUTTON'\<close> is then
  false.
\<close>

definition generateBestSelector :: "html_element \<Rightarrow> error + string" where
  "generateBestSelector el =
     (if js_truthy (el_id el) then Inr (''#'' @ js_interp (el_id el))
      else if shadowed el ''getAttribute'' \<noteq> None then Inl TypeError
      else
        let dataTestId = or_else (getAttribute el ''data-testid'')
                           (or_else (getAttribute el ''data-test'') (getAttribute el ''data-cy''))
        in if truthy dataTestId then Inr (''[data-testid=\"'' @ interp dataTestId @ ''\"]'')
        else if truthy (getAttribute el ''name'')
          then Inr (''[name=\"'' @ interp (getAttribute el ''name'') @ ''\"]'')
        else if shadowed el ''textContent'' \<noteq> None then Inl TypeError
        else
          let text = trim (textContent el)
          in if text \<noteq> [] \<and> length text < 30 \<and> shadowed el ''tagName'' = None
                \<and> (tagName el = ''BUTTON'' \<or> tagName el = ''A'')
             then Inr (''text=\"'' @ text @ ''\"'')
             else if shadowed el ''tagName'' \<noteq> None then Inl TypeError
             else Inr (toLowerCase (tagName el)))"

subsection \<open>Element descriptors\<close>

datatype element_type = Button | Input | Link | Text | Dropdown | Checkbox | Radio | Other

text \<open>The string that stands for a type in the source (\<open>'button' | 'input' | ...\<close>).\<close>

fun type_name :: "element_type \<Rightarrow> string" where
  "type_name Button = ''button''"
| "type_name Input = ''input''"
| "type_name Link = ''link''"
| "type_name Text = ''text''"
| "type_name Dropdown = ''dropdown''"
| "type_name Checkbox = ''checkbox''"
| "type_name Radio = ''radio''"
| "type_name Other = ''other''"

text \<open>\<open>interface ElementMapping\<close>. Fields whose names clash with constants of HOL or
  with fields of the other records carry the prefix \<open>em_\<close>.\<close>

record ElementMapping =
  em_id :: string
  em_name :: string
  selector :: string
  alternativeSelectors :: "string list"
  em_type :: element_type
  em_attributes :: "(string \<times> string) list"
  em_text :: "string option"
  em_screenshot :: "string option"
  lastVerified :: nat
  isStable :: bool

subsection \<open>Naming\<close>

text \<open>The three \<open>replace\<close> calls of \<open>generateElementName\<close>.
  \<open>/[^a-z0-9]/g\<close> to an underscore:\<close>

definition is_lower_alnum :: "char \<Rightarrow> bool" where
  "is_lower_alnum c =
     (let n = of_char c :: nat in (97 \<le> n \<and> n \<le> 122) \<or> (48 \<le> n \<and> n \<le> 57))"

definition replace_unsafe :: "string \<Rightarrow> string" where
  "replace_unsafe s = map (\<lambda>c. if is_lower_alnum c then c else CHR ''_'') s"

text \<open>\<open>/_+/g\<close> to one underscore:\<close>

fun collapse_underscores :: "string \<Rightarrow> string" where
  "collapse_underscores [] = []"
| "collapse_underscores [c] = [c]"
| "collapse_underscores (c # d # cs) =
     (if c = CHR ''_'' \<and> d = CHR ''_'' then collapse_underscores (d # cs)
      else c # collapse_underscores (d # cs))"

text \<open>\<open>/^_|_$/g\<close> to nothing: an underscore at the start, and one at the end of what
  is left.\<close>

definition strip_underscores :: "string \<Rightarrow> string" where
  "strip_underscores s =
     (let s1 = (case s of [] \<Rightarrow> [] | c # cs \<Rightarrow> if c = CHR ''_'' then cs else s)
      in if s1 \<noteq> [] \<and> last s1 = CHR ''_'' then butlast s1 else s1)"

text \<open>\<open>generateElementName(text, type)\<close>; \<open>text.substring(0, 30)\<close> is \<open>take 30\<close>.\<close>

definition generateElementName :: "string \<Rightarrow> string \<Rightarrow> string" where
  "generateElementName text ty =
     (let baseText = strip_underscores (collapse_underscores
                       (replace_unsafe (toLowerCase (take 30 text))))
      in if baseText \<noteq> [] then baseText else ty @ ''_element'')"

subsection \<open>Extraction\<close>

text \<open>\<open>detectType\<close> (inside \<open>extractAllElements\<close>): it calls \<open>el.tagName.toLowerCase()\<close>
  and \<open>el.getAttribute('type')\<close> first.\<close>

definition detectType :: "html_element \<Rightarrow> error + element_type" where
  "detectType el =
     (if shadowed el ''tagName'' \<noteq> None \<or> shadowed el ''getAttribute'' \<noteq> None then Inl TypeError
      else
        let tag = toLowerCase (tagName el); ty = getAttribute el ''type'' in
        Inr (if tag = ''button'' then Button
             else if tag = ''a'' then Link
             else if tag = ''input'' \<and> (ty = Some ''text'' \<or> ty = Some ''email'' \<or> ty = Some ''password'')
               then Input
             else if tag = ''input'' \<and> ty = Some ''checkbox'' then Checkbox
             else if tag = ''input'' \<and> ty = Some ''radio'' then Radio
             else if tag = ''select'' then Dropdown
             else if tag = ''textarea'' then Input
             else Other))"

text \<open>\<open>getAttributes\<close> (inside \<open>extractAllElements\<close>): the loop over
  \<open>Array.from(el.attributes)\<close>, which runs over the items of a control when
  \<open>attributes\<close> is one.\<close>

definition getAttributes :: "html_element \<Rightarrow> (string \<times> string) list" where
  "getAttributes el =
     (case shadowed el ''attributes'' of
        None \<Rightarrow> attrs el
      | Some c \<Rightarrow> fold (\<lambda>attr acc. map_set acc (fst attr) (snd attr)) (control_items c) [])"

text \<open>What the closure run in the page pushes for one element.\<close>

record raw_element =
  raw_selector :: string
  raw_type :: element_type
  raw_text :: string
  raw_attributes :: "(string \<times> string) list"

definition raw_of :: "html_element \<Rightarrow> error + raw_element" where
  "raw_of el =
     (case generateBestSelector el of
        Inl e \<Rightarrow> Inl e
      | Inr sel \<Rightarrow>
          (case detectType el of
             Inl e \<Rightarrow> Inl e
           | Inr ty \<Rightarrow>
               if shadowed el ''textContent'' \<noteq> None then Inl TypeError
               else Inr \<lparr> raw_selector = sel, raw_type = ty,
                          raw_text = trim (textContent el), raw_attributes = getAttributes el \<rparr>))"

text \<open>The live document answers \<open>querySelectorAll\<close>, its own method; the seven selectors
  of the source are valid CSS, so the call does not throw.\<close>

type_synonym document = "string \<Rightarrow> html_element list"

definition interactive_selectors :: "string list" where
  "interactive_selectors =
     [''button'', ''a[href]'', ''input:not([type=\"hidden\"])'', ''textarea'', ''select'',
      ''[role=\"button\"]'', ''[onclick]'']"

text \<open>
  The body of the inner \<open>forEach\<close>: the state is the set of processed nodes and the
  elements pushed so far. \<open>getBoundingClientRect\<close> is called, which throws when the
  property is a control; \<open>style\<close> is only read, and a control has neither \<open>display\<close>
  nor \<open>visibility\<close>.
\<close>

definition visit :: "html_element \<Rightarrow> nat list \<times> raw_element list \<Rightarrow> error + nat list \<times> raw_element list" where
  "visit el st =
     (case st of (processed, elements) \<Rightarrow>
        if node el \<in> set processed then Inr (processed, elements)
        else if shadowed el ''getBoundingClientRect'' \<noteq> None then Inl TypeError
        else if rect_width el = 0 \<or> rect_height el = 0 then Inr (node el # processed, elements)
        else if shadowed el ''style'' = None
                \<and> (style_display el = ''none'' \<or> style_visibility el = ''hidden'')
          then Inr (node el # processed, elements)
        else (case raw_of el of
                Inl e \<Rightarrow> Inl e
              | Inr r \<Rightarrow> Inr (node el # processed, elements @ [r])))"

text \<open>The two nested \<open>forEach\<close> loops; an exception ends both.\<close>

fun visit_all :: "html_element list \<Rightarrow> nat list \<times> raw_element list \<Rightarrow> error + nat list \<times> raw_element list" where
  "visit_all [] st = Inr st"
| "visit_all (el # els) st =
     (case visit el st of Inl e \<Rightarrow> Inl e | Inr st' \<Rightarrow> visit_all els st')"

fun query_all :: "document \<Rightarrow> string list \<Rightarrow> nat list \<times> raw_element list \<Rightarrow> error + nat list \<times> raw_element list" where
  "query_all doc [] st = Inr st"
| "query_all doc (sel # sels) st =
     (case visit_all (doc sel) st of Inl e \<Rightarrow> Inl e | Inr st' \<Rightarrow> query_all doc sels st')"

definition collect_raw :: "document \<Rightarrow> error + raw_element list" where
  "collect_raw doc =
     (case query_all doc interactive_selectors ([], []) of
        Inl e \<Rightarrow> Inl e
      | Inr st \<Rightarrow> Inr (snd st))"

text \<open>A number in a template literal: its decimal digits.\<close>

definition digit_char :: "nat \<Rightarrow> char" where
  "digit_char d = ''0123456789'' ! d"

function decimal :: "nat \<Rightarrow> string" where
  "decimal n = (if n < 10 then [digit_char n] else decimal (n div 10) @ [digit_char (n mod 10)])"
  by pat_completeness auto
termination
  by (relation "measure (\<lambda>n. n)") auto

declare decimal.simps [simp del]

text \<open>The \<open>then\<close> part of \<open>extractAllElements\<close>: every raw element becomes a
  descriptor.\<close>

definition to_mapping :: "nat \<Rightarrow> raw_element \<times> nat \<Rightarrow> ElementMapping" where
  "to_mapping now p =
     (case p of (el, index) \<Rightarrow>
        \<lparr> em_id = ''element-'' @ decimal now @ ''-'' @ decimal index,
          em_name = generateElementName (raw_text el) (type_name (raw_type el)),
          selector = raw_selector el,
          alternativeSelectors = [],
          em_type = raw_type el,
          em_attributes = raw_attributes el,
          em_text = Some (raw_text el),
          em_screenshot = None,
          lastVerified = now,
          isStable = True \<rparr>)"

text \<open>\<open>extractAllElements(page)\<close>: the descriptors, or the exception of the closure.\<close>

definition extractAllElements :: "document \<Rightarrow> nat \<Rightarrow> error + ElementMapping list" where
  "extractAllElements doc now =
     (case collect_raw doc of
        Inl e \<Rightarrow> Inl e
      | Inr rawElements \<Rightarrow>
          Inr (map (to_mapping now) (zip rawElements [0 ..< length rawElements])))"

subsection \<open>Page objects, steps, sessions\<close>

text \<open>\<open>interface PageObjectModel\<close>; \<open>version\<close> is a number that holds a whole number.\<close>

record PageObjectModel =
  pom_id :: string
  pom_name :: string
  pom_url :: string
  urlPattern :: "string option"
  elements :: "ElementMapping list"
  lastUpdated :: nat
  version :: int
  screenshots :: "string \<times> string"

datatype step_action = Click | Fill | Select | Check | Uncheck | Hover | Navigate | Wait | Assert

datatype assertion_type = Visible | TextIs | ValueIs | Count | Url | Title

text \<open>\<open>interface TestStep\<close>.\<close>

record TestStep =
  step_id :: string
  action :: step_action
  elementId :: "string option"
  elementName :: "string option"
  step_selector :: "string option"
  step_value :: "string option"
  assertion :: "(assertion_type \<times> string) option"
  step_screenshot :: "string option"
  timestamp :: nat

text \<open>
  \<open>interface InteractiveSession\<close>, without the handles of the browser: what the browser
  answers is an input of each operation. \<open>elementMappings\<close> is a JavaScript \<open>Map\<close>: a
  list of pairs with distinct keys, in insertion order. The source shares one descriptor
  object between \<open>elementMappings\<close> and the page object's \<open>elements\<close>, and one page
  object between the session and the repository; the model holds values, and each
  operation updates the copy it is given.
\<close>

record InteractiveSession =
  sess_id :: string
  currentUrl :: string
  currentPageObject :: "PageObjectModel option"
  recordedSteps :: "TestStep list"
  elementMappings :: "(string \<times> ElementMapping) list"
  isRecording :: bool
  traceFile :: "string option"

text \<open>The private state of \<open>class InteractiveTestBuilder\<close>.\<close>

record builder =
  sessions :: "string \<rightharpoonup> InteractiveSession"
  pageObjectRepository :: "(string \<times> PageObjectModel) list"
  githubRepoPath :: "string option"

subsection \<open>The browser\<close>

text \<open>\<open>page.$(selector)\<close> throws, resolves to \<open>null\<close>, or resolves to a handle.\<close>

datatype query_result = Throws | Null | Handle html_element

text \<open>The messages of the overlay that \<open>__sendToBackend\<close> reads, by their \<open>type\<close>:
  \<open>ta-element-mapped\<close> (selector and name), \<open>ta-action-recorded\<close> (action and selector),
  \<open>ta-recording-started\<close>, \<open>ta-recording-stopped\<close>, and any other.\<close>

datatype overlay_message =
    ElementMapped string string
  | ActionRecorded step_action string
  | RecordingStarted
  | RecordingStopped
  | OtherMessage

text \<open>What the page sends to the two listeners of the service: a \<open>framenavigated\<close>
  event, with what \<open>page.url()\<close> answers the listener, or a message of the overlay.\<close>

datatype page_event = Navigated string | Message overlay_message

text \<open>
  What the browser and the file system answer during one call:
  \<^item> \<open>click_ok\<close>, \<open>fill_ok\<close>: \<open>page.click\<close> and \<open>page.fill\<close> resolve (they throw
    when nothing matches the selector in time);
  \<^item> \<open>events\<close>: what the page sends while a click or a fill is running, in the order
    of arrival: the navigation that a click on a link sets off, the message of the
    overlay that has seen the click;
  \<^item> \<open>dollar\<close>: \<open>page.$\<close>;
  \<^item> \<open>dom\<close>: \<open>document.querySelectorAll\<close> inside \<open>page.evaluate\<close>, \<open>None\<close> when the
    selector is not valid CSS and the call throws;
  \<^item> \<open>screenshot_ok\<close>: \<open>captureScreenshot\<close> resolves;
  \<^item> \<open>save_ok\<close>: the writes of \<open>savePageObjectModel\<close> resolve;
  \<^item> \<open>trace_ok\<close>: \<open>context.tracing.stop\<close> resolves;
  \<^item> \<open>close_ok\<close>: closing the page, the context and the browser resolves.
\<close>

record browser =
  click_ok :: "string \<Rightarrow> bool"
  fill_ok :: "string \<Rightarrow> string \<Rightarrow> bool"
  events :: "page_event list"
  dollar :: "string \<Rightarrow> query_result"
  dom :: "string \<Rightarrow> html_element list option"
  screenshot_ok :: bool
  save_ok :: bool
  trace_ok :: bool
  close_ok :: bool

subsection \<open>Stability check\<close>

text \<open>The loop over \<open>element.alternativeSelectors\<close>: the first alternative that
  resolves. A throw leaves the loop through the \<open>catch\<close>, which returns \<open>false\<close>.\<close>

fun first_working :: "(string \<Rightarrow> query_result) \<Rightarrow> string list \<Rightarrow> string option" where
  "first_working q [] = None"
| "first_working q (altSelector # rest) =
     (case q altSelector of
        Throws \<Rightarrow> None
      | Null \<Rightarrow> first_working q rest
      | Handle h \<Rightarrow> Some altSelector)"

text \<open>The \<open>try\<close> block of \<open>verifyElementStability\<close> on one descriptor: the answer and
  the descriptor afterwards.\<close>

definition verify_element :: "(string \<Rightarrow> query_result) \<Rightarrow> nat \<Rightarrow> ElementMapping \<Rightarrow> bool \<times> ElementMapping" where
  "verify_element q now element =
     (case q (selector element) of
        Throws \<Rightarrow> (False, element)
      | Handle h \<Rightarrow> (True, element)
      | Null \<Rightarrow>
          (case first_working q (alternativeSelectors element) of
             None \<Rightarrow> (False, element)
           | Some altSelector \<Rightarrow>
               (True, element\<lparr> selector := altSelector, lastVerified := now \<rparr>)))"

text \<open>\<open>verifyElementStability(sessionId, elementId)\<close>.\<close>

definition verifyElementStability :: "builder \<Rightarrow> browser \<Rightarrow> nat \<Rightarrow> string \<Rightarrow> string \<Rightarrow> error + bool \<times> builder" where
  "verifyElementStability b br now sessionId eid =
     (case sessions b sessionId of
        None \<Rightarrow> Inl SessionNotFound
      | Some session \<Rightarrow>
          (case map_of (elementMappings session) eid of
             None \<Rightarrow> Inr (False, b)
           | Some element \<Rightarrow>
               (case verify_element (dollar br) now element of
                  (r, element') \<Rightarrow>
                    Inr (r, b\<lparr> sessions := (sessions b)(sessionId \<mapsto>
                          session\<lparr> elementMappings :=
                            map_set (elementMappings session) eid element' \<rparr>) \<rparr>))))"

subsection \<open>Merging a fresh extraction into a page object\<close>

text \<open>The two \<open>forEach\<close> loops of \<open>updatePageObjectModel\<close> over the \<open>Map\<close> keyed by
  selector.\<close>

definition add_existing :: "ElementMapping \<Rightarrow> (string \<times> ElementMapping) list \<Rightarrow> (string \<times> ElementMapping) list" where
  "add_existing el mergedElements = map_set mergedElements (selector el) el"

definition add_current :: "nat \<Rightarrow> ElementMapping \<Rightarrow> (string \<times> ElementMapping) list \<Rightarrow> (string \<times> ElementMapping) list" where
  "add_current now el mergedElements =
     (case map_of mergedElements (selector el) of
        Some existing \<Rightarrow>
          map_set mergedElements (selector el) (existing\<lparr> lastVerified := now, isStable := True \<rparr>)
      | None \<Rightarrow> map_set mergedElements (selector el) el)"

definition merge_elements :: "nat \<Rightarrow> ElementMapping list \<Rightarrow> ElementMapping list \<Rightarrow> ElementMapping list" where
  "merge_elements now existingElements currentElements =
     map snd (fold (add_current now) currentElements (fold add_existing existingElements []))"

text \<open>\<open>updatePageObjectModel(page, existing)\<close>, up to the call that saves the result:
  the page object as the merge leaves it (the call returns it unless saving throws), or
  the exception of the extraction, which leaves the page object as it was.\<close>

definition updatePageObjectModel :: "document \<Rightarrow> nat \<Rightarrow> PageObjectModel \<Rightarrow> error + PageObjectModel" where
  "updatePageObjectModel doc now existing =
     (case extractAllElements doc now of
        Inl e \<Rightarrow> Inl e
      | Inr currentElements \<Rightarrow>
          Inr (existing\<lparr> elements := merge_elements now (elements existing) currentElements,
                        lastUpdated := now,
                        version := increment (version existing) \<rparr>))"

subsection \<open>Mapping an element on the fly\<close>

text \<open>\<open>findElementIdBySelector\<close>: the first entry, in the order of the \<open>Map\<close>, whose
  selector or one of whose alternatives is the selector asked for.\<close>

definition findElementIdBySelector :: "InteractiveSession \<Rightarrow> string \<Rightarrow> string option" where
  "findElementIdBySelector session sel =
     map_option fst
       (find (\<lambda>p. selector (snd p) = sel \<or> sel \<in> set (alternativeSelectors (snd p)))
          (elementMappings session))"

text \<open>\<open>detectElementType(tagName, type)\<close>, the method of the class.\<close>

definition detectElementType :: "string \<Rightarrow> string \<Rightarrow> element_type" where
  "detectElementType tag ty =
     (if tag = ''button'' then Button
      else if tag = ''a'' then Link
      else if tag = ''select'' then Dropdown
      else if tag = ''textarea'' then Input
      else if tag = ''input'' \<and> ty = ''checkbox'' then Checkbox
      else if tag = ''input'' \<and> ty = ''radio'' then Radio
      else if tag = ''input'' \<and> ty \<in> set [''text'', ''email'', ''password'', ''number'', ''tel'', ''url'']
        then Input
      else Other)"

text \<open>The loop over the classes in \<open>generateAlternativeSelectors\<close>; \<open>None\<close> when a
  query throws.\<close>

fun unique_classes :: "(string \<Rightarrow> html_element list option) \<Rightarrow> string list \<Rightarrow> string list option" where
  "unique_classes d [] = Some []"
| "unique_classes d (cls # rest) =
     (case d (''.'' @ cls) of
        None \<Rightarrow> None
      | Some found \<Rightarrow>
          (case unique_classes d rest of
             None \<Rightarrow> None
           | Some alts \<Rightarrow> Some ((if length found = 1 then [''.'' @ cls] else []) @ alts)))"

text \<open>
  \<open>generateAlternativeSelectors(page, primarySelector)\<close>; \<open>document.querySelector\<close>
  is the first element of \<open>querySelectorAll\<close>. The items of a control that stands for
  \<open>classList\<close> are elements, and a dot before the string of one is no selector.
\<close>

definition generateAlternativeSelectors :: "(string \<Rightarrow> html_element list option) \<Rightarrow> string \<Rightarrow> error + string list" where
  "generateAlternativeSelectors d primarySelector =
     (case d primarySelector of
        None \<Rightarrow> Inl DriverError
      | Some [] \<Rightarrow> Inr []
      | Some (htmlEl # others) \<Rightarrow>
          if shadowed htmlEl ''textContent'' \<noteq> None \<or> shadowed htmlEl ''getAttribute'' \<noteq> None
          then Inl TypeError
          else
            (case (case shadowed htmlEl ''classList'' of
                     None \<Rightarrow> unique_classes d (classList htmlEl)
                   | Some c \<Rightarrow> if control_items c = [] then Some [] else None) of
               None \<Rightarrow> Inl DriverError
             | Some classAlts \<Rightarrow>
                 (let text = trim (textContent htmlEl);
                      byText = (if text \<noteq> [] \<and> length text < 30 then [''text=\"'' @ text @ ''\"''] else []);
                      ariaLabel = getAttribute htmlEl ''aria-label'';
                      byLabel = (if truthy ariaLabel then [''[aria-label=\"'' @ interp ariaLabel @ ''\"]''] else []);
                      role = getAttribute htmlEl ''role'';
                      byRole = (if truthy role then [''[role=\"'' @ interp role @ ''\"]''] else [])
                  in Inr (take 3 (byText @ byLabel @ classAlts @ byRole)))))"

text \<open>
  \<open>mapNewElement(session, selector, name)\<close>: the session afterwards and the mapping, or
  the exception. The closure run on the handle calls \<open>el.tagName.toLowerCase()\<close>,
  \<open>el.getAttribute('type')\<close> and \<open>el.textContent?.trim()\<close>. \<open>saving\<close> says that
  \<open>githubRepoPath\<close> is set, so that \<open>savePageObjectModel\<close> writes; a failed write
  throws after the session has changed.
\<close>

definition mapNewElement :: "browser \<Rightarrow> bool \<Rightarrow> nat \<Rightarrow> InteractiveSession \<Rightarrow> string \<Rightarrow> string \<Rightarrow> InteractiveSession \<times> (error + ElementMapping)" where
  "mapNewElement br saving now session sel name =
     (case dollar br sel of
        Throws \<Rightarrow> (session, Inl DriverError)
      | Null \<Rightarrow> (session, Inl ElementNotFound)
      | Handle el \<Rightarrow>
          if shadowed el ''tagName'' \<noteq> None \<or> shadowed el ''getAttribute'' \<noteq> None
             \<or> shadowed el ''textContent'' \<noteq> None
          then (session, Inl TypeError)
          else
          (case generateAlternativeSelectors (dom br) sel of
             Inl e \<Rightarrow> (session, Inl e)
           | Inr alts \<Rightarrow>
               (let mapping = \<lparr> em_id = ''element-'' @ decimal now,
                                em_name = name,
                                selector = sel,
                                alternativeSelectors = alts,
                                em_type = detectElementType (toLowerCase (tagName el))
                                            (interp (or_else (getAttribute el ''type'') (Some []))),
                                em_attributes = getAttributes el,
                                em_text = Some (trim (textContent el)),
                                em_screenshot = None,
                                lastVerified = now,
                                isStable = True \<rparr>;
                    session1 = session\<lparr> elementMappings :=
                                 map_set (elementMappings session) (em_id mapping) mapping \<rparr>
                in case currentPageObject session1 of
                     None \<Rightarrow> (session1, Inr mapping)
                   | Some pom \<Rightarrow>
                       (let session2 = session1\<lparr> currentPageObject :=
                              Some (pom\<lparr> elements := elements pom @ [mapping],
                                         lastUpdated := now,
                                         version := increment (version pom) \<rparr>) \<rparr>
                        in if saving \<and> \<not> save_ok br then (session2, Inl DriverError)
                           else (session2, Inr mapping)))))"

subsection \<open>Recording\<close>

text \<open>\<open>startRecording(sessionId)\<close>.\<close>

definition startRecording :: "builder \<Rightarrow> nat \<Rightarrow> string \<Rightarrow> builder \<times> (error + unit)" where
  "startRecording b now sessionId =
     (case sessions b sessionId of
        None \<Rightarrow> (b, Inl SessionNotFound)
      | Some session \<Rightarrow>
          (b\<lparr> sessions := (sessions b)(sessionId \<mapsto>
                session\<lparr> isRecording := True,
                         recordedSteps := [],
                         traceFile := Some (''./traces/session-'' @ sessionId @ ''-''
                                            @ decimal now @ ''.zip'') \<rparr>) \<rparr>,
           Inr ()))"

text \<open>\<open>stopRecording(sessionId)\<close>. The test source it returns is built from the session
  and changes nothing; the model keeps the effect on the state and the exception.\<close>

definition stopRecording :: "builder \<Rightarrow> browser \<Rightarrow> string \<Rightarrow> builder \<times> (error + unit)" where
  "stopRecording b br sessionId =
     (case sessions b sessionId of
        None \<Rightarrow> (b, Inl SessionNotFound)
      | Some session \<Rightarrow>
          (let b' = b\<lparr> sessions := (sessions b)(sessionId \<mapsto> session\<lparr> isRecording := False \<rparr>) \<rparr>
           in if truthy (traceFile session) \<and> \<not> trace_ok br then (b', Inl DriverError)
              else (b', Inr ())))"

text \<open>
  The listener that \<open>setupPageListeners\<close> attaches for \<open>framenavigated\<close>, on the
  session it finds: while the session is recording it pushes a step.
\<close>

definition navigate_step :: "nat \<Rightarrow> string \<Rightarrow> TestStep" where
  "navigate_step now url =
     \<lparr> step_id = ''step-'' @ decimal now, action = Navigate, elementId = None,
       elementName = None, step_selector = None, step_value = Some url,
       assertion = None, step_screenshot = None, timestamp = now \<rparr>"

definition on_framenavigated :: "nat \<Rightarrow> string \<Rightarrow> InteractiveSession \<Rightarrow> InteractiveSession" where
  "on_framenavigated now url session =
     (if isRecording session
      then session\<lparr> recordedSteps := recordedSteps session @ [navigate_step now url] \<rparr>
      else session)"

text \<open>
  The function that \<open>injectOverlay\<close> exposes as \<open>__sendToBackend\<close>, on the session it
  finds. An exception of \<open>mapNewElement\<close> rejects the promise of the exposed function;
  what the session had become before it stays.
\<close>

definition reported_step :: "nat \<Rightarrow> step_action \<Rightarrow> string \<Rightarrow> TestStep" where
  "reported_step now act sel =
     \<lparr> step_id = ''step-'' @ decimal now, action = act, elementId = None,
       elementName = None, step_selector = Some sel, step_value = None,
       assertion = None, step_screenshot = None, timestamp = now \<rparr>"

definition on_message :: "browser \<Rightarrow> bool \<Rightarrow> nat \<Rightarrow> overlay_message \<Rightarrow> InteractiveSession \<Rightarrow> InteractiveSession" where
  "on_message br saving now msg session =
     (case msg of
        ElementMapped sel name \<Rightarrow> fst (mapNewElement br saving now session sel name)
      | ActionRecorded act sel \<Rightarrow>
          if isRecording session
          then session\<lparr> recordedSteps := recordedSteps session @ [reported_step now act sel] \<rparr>
          else session
      | RecordingStarted \<Rightarrow> session\<lparr> isRecording := True \<rparr>
      | RecordingStopped \<Rightarrow> session\<lparr> isRecording := False \<rparr>
      | OtherMessage \<Rightarrow> session)"

text \<open>What arrives while a click or a fill awaits the browser: the listeners run one
  after the other, before the call goes on.\<close>

fun deliver :: "browser \<Rightarrow> bool \<Rightarrow> nat \<Rightarrow> page_event \<Rightarrow> InteractiveSession \<Rightarrow> InteractiveSession" where
  "deliver br saving now (Navigated url) session = on_framenavigated now url session"
| "deliver br saving now (Message msg) session = on_message br saving now msg session"

definition arrive :: "browser \<Rightarrow> bool \<Rightarrow> nat \<Rightarrow> InteractiveSession \<Rightarrow> InteractiveSession" where
  "arrive br saving now session = fold (deliver br saving now) (events br) session"

text \<open>The part \<open>clickElement\<close> and \<open>fillElement\<close> share: look the selector up, and map
  the element when it is unknown and a name was given.\<close>

definition map_if_unmapped :: "browser \<Rightarrow> bool \<Rightarrow> nat \<Rightarrow> InteractiveSession \<Rightarrow> string \<Rightarrow> string option \<Rightarrow> InteractiveSession \<times> (error + string option)" where
  "map_if_unmapped br saving now session sel ename =
     (let eid = findElementIdBySelector session sel
      in if \<not> truthy eid \<and> truthy ename
         then (case mapNewElement br saving now session sel (interp ename) of
                 (session', Inl e) \<Rightarrow> (session', Inl e)
               | (session', Inr element) \<Rightarrow> (session', Inr (Some (em_id element))))
         else (session, Inr eid))"

text \<open>The end of both: take the screenshot, build the step, push it when recording.\<close>

definition record_step :: "browser \<Rightarrow> nat \<Rightarrow> InteractiveSession \<Rightarrow> step_action \<Rightarrow> string option \<Rightarrow> string option \<Rightarrow> string \<Rightarrow> string option \<Rightarrow> InteractiveSession \<times> (error + TestStep)" where
  "record_step br now session act eid ename sel val =
     (if \<not> screenshot_ok br then (session, Inl DriverError)
      else
        let step = \<lparr> step_id = ''step-'' @ decimal now,
                     action = act,
                     elementId = eid,
                     elementName = ename,
                     step_selector = Some sel,
                     step_value = val,
                     assertion = None,
                     step_screenshot = Some (''screenshots/screenshot-'' @ decimal now @ ''.png''),
                     timestamp = now \<rparr>
        in if isRecording session
           then (session\<lparr> recordedSteps := recordedSteps session @ [step] \<rparr>, Inr step)
           else (session, Inr step))"

definition put_session :: "builder \<Rightarrow> string \<Rightarrow> InteractiveSession \<Rightarrow> builder" where
  "put_session b sessionId session = b\<lparr> sessions := (sessions b)(sessionId \<mapsto> session) \<rparr>"

text \<open>
  \<open>clickElement(sessionId, selector, elementName?)\<close>. What the page sends arrives
  while the call awaits \<open>page.click\<close> and the calls after it, and so before the call
  builds its step.
\<close>

definition clickElement :: "builder \<Rightarrow> browser \<Rightarrow> nat \<Rightarrow> string \<Rightarrow> string \<Rightarrow> string option \<Rightarrow> builder \<times> (error + TestStep)" where
  "clickElement b br now sessionId sel ename =
     (case sessions b sessionId of
        None \<Rightarrow> (b, Inl SessionNotFound)
      | Some session \<Rightarrow>
          (let session0 = arrive br (truthy (githubRepoPath b)) now session
           in if \<not> click_ok br sel then (put_session b sessionId session0, Inl DriverError)
              else
                (case map_if_unmapped br (truthy (githubRepoPath b)) now session0 sel ename of
                   (session1, Inl e) \<Rightarrow> (put_session b sessionId session1, Inl e)
                 | (session1, Inr eid) \<Rightarrow>
                     (case record_step br now session1 Click eid ename sel None of
                        (session2, r) \<Rightarrow> (put_session b sessionId session2, r)))))"

text \<open>\<open>fillElement(sessionId, selector, value, elementName?)\<close>, likewise.\<close>

definition fillElement :: "builder \<Rightarrow> browser \<Rightarrow> nat \<Rightarrow> string \<Rightarrow> string \<Rightarrow> string \<Rightarrow> string option \<Rightarrow> builder \<times> (error + TestStep)" where
  "fillElement b br now sessionId sel val ename =
     (case sessions b sessionId of
        None \<Rightarrow> (b, Inl SessionNotFound)
      | Some session \<Rightarrow>
          (let session0 = arrive br (truthy (githubRepoPath b)) now session
           in if \<not> fill_ok br sel val then (put_session b sessionId session0, Inl DriverError)
              else
                (case map_if_unmapped br (truthy (githubRepoPath b)) now session0 sel ename of
                   (session1, Inl e) \<Rightarrow> (put_session b sessionId session1, Inl e)
                 | (session1, Inr eid) \<Rightarrow>
                     (case record_step br now session1 Fill eid ename sel (Some val) of
                        (session2, r) \<Rightarrow> (put_session b sessionId session2, r)))))"

subsection \<open>What the page sends between the calls\<close>

text \<open>A \<open>framenavigated\<close> event, and a message of the overlay.\<close>

definition frame_navigated :: "builder \<Rightarrow> nat \<Rightarrow> string \<Rightarrow> string \<Rightarrow> builder" where
  "frame_navigated b now sessionId url =
     (case sessions b sessionId of
        None \<Rightarrow> b
      | Some session \<Rightarrow> put_session b sessionId (on_framenavigated now url session))"

definition send_to_backend :: "builder \<Rightarrow> browser \<Rightarrow> nat \<Rightarrow> string \<Rightarrow> overlay_message \<Rightarrow> builder" where
  "send_to_backend b br now sessionId msg =
     (case sessions b sessionId of
        None \<Rightarrow> b
      | Some session \<Rightarrow>
          put_session b sessionId (on_message br (truthy (githubRepoPath b)) now msg session))"

subsection \<open>Traces\<close>

text \<open>
  What happens to one session, in order: the calls of the interface and the events of
  the page. Each comes with what the browser answers during it and with the clock.
\<close>

datatype api_call =
    StartRecording
  | StopRecording
  | ClickElement string "string option"
  | FillElement string string "string option"
  | FrameNavigated string
  | SendToBackend overlay_message

text \<open>The click and fill actions.\<close>

fun is_action :: "api_call \<Rightarrow> bool" where
  "is_action (ClickElement sel ename) = True"
| "is_action (FillElement sel val ename) = True"
| "is_action c = False"

text \<open>One call or event: the state afterwards, and \<open>Some\<close> of the step when an action
  returned one (\<open>None\<close> when it threw, and for everything that is not an action).\<close>

fun exec :: "string \<Rightarrow> builder \<Rightarrow> api_call \<times> browser \<times> nat \<Rightarrow> builder \<times> TestStep option" where
  "exec sessionId b (StartRecording, br, now) = (fst (startRecording b now sessionId), None)"
| "exec sessionId b (StopRecording, br, now) = (fst (stopRecording b br sessionId), None)"
| "exec sessionId b (ClickElement sel ename, br, now) =
     (case clickElement b br now sessionId sel ename of
        (b', Inl e) \<Rightarrow> (b', None) | (b', Inr step) \<Rightarrow> (b', Some step))"
| "exec sessionId b (FillElement sel val ename, br, now) =
     (case fillElement b br now sessionId sel val ename of
        (b', Inl e) \<Rightarrow> (b', None) | (b', Inr step) \<Rightarrow> (b', Some step))"
| "exec sessionId b (FrameNavigated url, br, now) = (frame_navigated b now sessionId url, None)"
| "exec sessionId b (SendToBackend msg, br, now) = (send_to_backend b br now sessionId msg, None)"

text \<open>A trace: the state afterwards.\<close>

fun run :: "string \<Rightarrow> builder \<Rightarrow> (api_call \<times> browser \<times> nat) list \<Rightarrow> builder" where
  "run sessionId b [] = b"
| "run sessionId b (c # cs) = run sessionId (fst (exec sessionId b c)) cs"

text \<open>\<open>session.recordedSteps\<close> of a session, empty when there is no such session.\<close>

definition steps_of :: "builder \<Rightarrow> string \<Rightarrow> TestStep list" where
  "steps_of b sessionId = (case sessions b sessionId of None \<Rightarrow> [] | Some session \<Rightarrow> recordedSteps session)"

subsection \<open>Ending a session\<close>

text \<open>\<open>endSession(sessionId)\<close>: an unknown id returns at once; a failure of the browser
  throws before the session is deleted.\<close>

definition endSession :: "builder \<Rightarrow> browser \<Rightarrow> string \<Rightarrow> builder \<times> (error + unit)" where
  "endSession b br sessionId =
     (case sessions b sessionId of
        None \<Rightarrow> (b, Inr ())
      | Some session \<Rightarrow>
          if truthy (traceFile session) \<and> \<not> trace_ok br then (b, Inl DriverError)
          else if \<not> close_ok br then (b, Inl DriverError)
          else (b\<lparr> sessions := (sessions b)(sessionId := None) \<rparr>, Inr ()))"

text \<open>The JSON answer of a route: the HTTP status and the body.\<close>

record response =
  status :: nat
  success :: bool
  message :: "string option"
  error_text :: "string option"

text \<open>\<open>router.delete('/sessions/:sessionId')\<close>, after the authentication middleware
  has let the request through.\<close>

definition delete_session_route :: "builder \<Rightarrow> browser \<Rightarrow> string \<Rightarrow> builder \<times> response" where
  "delete_session_route b br sessionId =
     (case endSession b br sessionId of
        (b', Inr u) \<Rightarrow>
          (b', \<lparr> status = 200, success = True, message = Some ''Session ended'', error_text = None \<rparr>)
      | (b', Inl e) \<Rightarrow>
          (b', \<lparr> status = 500, success = False, message = None,
                 error_text = Some ''Failed to end session'' \<rparr>))"

subsection \<open>URLs and URL patterns\<close>

text \<open>
  \<open>new URL(url).pathname\<close>, for a URL written \<open>scheme://authority/path?query#fragment\<close>
  whose path the parser leaves as it is (no dot segments, no character it would
  percent-encode): the path runs from the first slash after the authority to the first
  \<open>?\<close> or \<open>#\<close>, and an empty path reads \<open>/\<close>. \<open>None\<close> stands for the \<open>TypeError\<close> of
  a string that is no such URL.
\<close>

definition url_pathname :: "string \<Rightarrow> string option" where
  "url_pathname url =
     (let scheme = takeWhile (\<lambda>c. c \<noteq> CHR '':'') url;
          rest = dropWhile (\<lambda>c. c \<noteq> CHR '':'') url
      in if scheme = [] \<or> take 3 rest \<noteq> ''://'' then None
         else
           let afterAuthority = dropWhile (\<lambda>c. c \<notin> set ''/?#'') (drop 3 rest);
               path = takeWhile (\<lambda>c. c \<notin> set ''?#'') afterAuthority
           in Some (if path = [] then ''/'' else path))"

definition is_digit :: "char \<Rightarrow> bool" where
  "is_digit c = (let n = of_char c :: nat in 48 \<le> n \<and> n \<le> 57)"

definition backslash :: char where
  "backslash = CHR 0x5C"

text \<open>\<open>pathname.replace(/\/\d+/g, '/\\d+')\<close>: a slash with the digits after it becomes
  the four characters slash, backslash, \<open>d\<close>, \<open>+\<close>.\<close>

function replace_numeric :: "string \<Rightarrow> string" where
  "replace_numeric [] = []"
| "replace_numeric (c # cs) =
     (if c = CHR ''/'' \<and> cs \<noteq> [] \<and> is_digit (hd cs)
      then [CHR ''/'', backslash, CHR ''d'', CHR ''+''] @ replace_numeric (dropWhile is_digit cs)
      else c # replace_numeric cs)"
  by pat_completeness auto
termination
  by (relation "measure length") (auto simp: le_imp_less_Suc length_dropWhile_le)

text \<open>\<open>generateUrlPattern(url)\<close>.\<close>

definition generateUrlPattern :: "string \<Rightarrow> error + string" where
  "generateUrlPattern url =
     (case url_pathname url of None \<Rightarrow> Inl InvalidUrl | Some pathname \<Rightarrow> Inr (replace_numeric pathname))"

subsection \<open>Regular expressions\<close>

text \<open>
  \<open>new RegExp(pattern).test(s)\<close>, without flags, for the patterns made of literal
  characters, the dot, \<open>\d\<close>, the anchors \<open>^\<close> and \<open>$\<close>, and the quantifiers \<open>+\<close> and
  \<open>*\<close> on one character. The constructor answers with the compiled pattern, with
  \<open>SyntaxError\<close> where JavaScript throws one (a quantifier with nothing to repeat), or
  with \<open>Unsupported\<close> for a pattern that uses anything else (groups, classes,
  alternation, braces, \<open>?\<close>, other escapes), about which the model says nothing.
\<close>

datatype atom = Lit char | AnyChar | Digit

datatype quantifier = Once | Plus | Star

datatype piece = Atom atom quantifier | AtStart | AtEnd

datatype compile_error = SyntaxError | Unsupported

definition is_line_terminator :: "char \<Rightarrow> bool" where
  "is_line_terminator c = (c = CHR 0x0A \<or> c = CHR 0x0D)"

fun atom_matches :: "atom \<Rightarrow> char \<Rightarrow> bool" where
  "atom_matches (Lit x) c = (c = x)"
| "atom_matches AnyChar c = (\<not> is_line_terminator c)"
| "atom_matches Digit c = is_digit c"

text \<open>One term of the pattern at the head of the text: the atom or assertion, and what
  is left of the pattern after it.\<close>

fun parse_atom :: "string \<Rightarrow> compile_error + (piece \<times> string)" where
  "parse_atom [] = Inl Unsupported"
| "parse_atom (c # cs) =
     (if c = backslash then
        (case cs of
           [] \<Rightarrow> Inl Unsupported
         | e # rest \<Rightarrow> if e = CHR ''d'' then Inr (Atom Digit Once, rest) else Inl Unsupported)
      else if c = CHR ''+'' \<or> c = CHR ''*'' then Inl SyntaxError
      else if c \<in> set ''?()[]{}|'' then Inl Unsupported
      else if c = CHR ''^'' then Inr (AtStart, cs)
      else if c = CHR ''$'' then Inr (AtEnd, cs)
      else if c = CHR ''.'' then Inr (Atom AnyChar Once, cs)
      else Inr (Atom (Lit c) Once, cs))"

text \<open>The quantifier after a term. An assertion cannot be repeated; a \<open>?\<close> or a brace
  after a term is outside the model.\<close>

fun parse_quantifier :: "piece \<Rightarrow> string \<Rightarrow> compile_error + (piece \<times> string)" where
  "parse_quantifier p [] = Inr (p, [])"
| "parse_quantifier p (c # cs) =
     (if c = CHR ''+'' \<or> c = CHR ''*'' then
        (case p of
           Atom a q \<Rightarrow>
             (case cs of
                [] \<Rightarrow> Inr (Atom a (if c = CHR ''+'' then Plus else Star), cs)
              | d # ds \<Rightarrow>
                  if d = CHR ''?'' \<or> d = CHR ''{'' then Inl Unsupported
                  else Inr (Atom a (if c = CHR ''+'' then Plus else Star), cs))
         | AtStart \<Rightarrow> Inl SyntaxError
         | AtEnd \<Rightarrow> Inl SyntaxError)
      else if c = CHR ''?'' \<or> c = CHR ''{'' then Inl Unsupported
      else Inr (p, c # cs))"

lemma parse_atom_shorter: "parse_atom s = Inr (p, rest) \<Longrightarrow> length rest < length s"
  by (cases s) (auto split: if_splits list.splits)

lemma parse_quantifier_shorter: "parse_quantifier p s = Inr (p', rest) \<Longrightarrow> length rest \<le> length s"
  by (cases s) (auto split: if_splits list.splits piece.splits)

function compile :: "string \<Rightarrow> compile_error + piece list" where
  "compile s =
     (if s = [] then Inr []
      else
        (case parse_atom s of
           Inl e \<Rightarrow> Inl e
         | Inr (p, rest) \<Rightarrow>
             (case parse_quantifier p rest of
                Inl e \<Rightarrow> Inl e
              | Inr (p', rest') \<Rightarrow>
                  (case compile rest' of Inl e \<Rightarrow> Inl e | Inr ps \<Rightarrow> Inr (p' # ps)))))"
  by pat_completeness auto
termination
proof (relation "measure length")
  show "wf (measure length)" by simp
next
  fix s :: string and x2 x y x2a xa ya
  assume "parse_atom s = Inr x2" "(x, y) = x2" "parse_quantifier x y = Inr x2a" "(xa, ya) = x2a"
  then have "length y < length s" "length ya \<le> length y"
    using parse_atom_shorter [of s x y] parse_quantifier_shorter [of x y xa ya] by auto
  then show "(ya, s) \<in> measure length" by simp
qed

declare compile.simps [simp del]

text \<open>Whether the pieces match a prefix of the text; \<open>at_start\<close> says that the text
  is the whole input. A greedy quantifier with backtracking finds a match exactly when
  some number of repetitions leads to one.\<close>

fun match_here :: "piece list \<Rightarrow> bool \<Rightarrow> string \<Rightarrow> bool" where
  "match_here [] at_start s = True"
| "match_here (AtStart # ps) at_start s = (at_start \<and> match_here ps at_start s)"
| "match_here (AtEnd # ps) at_start s = (s = [] \<and> match_here ps at_start s)"
| "match_here (Atom a Once # ps) at_start [] = False"
| "match_here (Atom a Once # ps) at_start (c # cs) = (atom_matches a c \<and> match_here ps False cs)"
| "match_here (Atom a Plus # ps) at_start [] = False"
| "match_here (Atom a Plus # ps) at_start (c # cs) =
     (atom_matches a c \<and> (match_here (Atom a Plus # ps) False cs \<or> match_here ps False cs))"
| "match_here (Atom a Star # ps) at_start [] = match_here ps at_start []"
| "match_here (Atom a Star # ps) at_start (c # cs) =
     ((atom_matches a c \<and> match_here (Atom a Star # ps) False cs) \<or> match_here ps at_start (c # cs))"

text \<open>\<open>test\<close> looks for a match at every index of the input.\<close>

fun search :: "piece list \<Rightarrow> bool \<Rightarrow> string \<Rightarrow> bool" where
  "search ps at_start [] = match_here ps at_start []"
| "search ps at_start (c # cs) = (match_here ps at_start (c # cs) \<or> search ps False cs)"

definition regexp_test :: "string \<Rightarrow> string \<Rightarrow> compile_error + bool" where
  "regexp_test pattern s =
     (case compile pattern of Inl e \<Rightarrow> Inl e | Inr ps \<Rightarrow> Inr (search ps True s))"

subsection \<open>Looking a page object up by URL\<close>

text \<open>The loop of \<open>findPageObjectByUrl\<close> over \<open>pageObjectRepository.values()\<close>. The
  pattern is compiled only when the URLs differ and the pattern is truthy.\<close>

fun find_by_url :: "PageObjectModel list \<Rightarrow> string \<Rightarrow> compile_error + PageObjectModel option" where
  "find_by_url [] url = Inr None"
| "find_by_url (pom # rest) url =
     (if pom_url pom = url then Inr (Some pom)
      else if truthy (urlPattern pom) then
        (case regexp_test (interp (urlPattern pom)) url of
           Inl e \<Rightarrow> Inl e
         | Inr matched \<Rightarrow> if matched then Inr (Some pom) else find_by_url rest url)
      else find_by_url rest url)"

definition findPageObjectByUrl :: "builder \<Rightarrow> string \<Rightarrow> compile_error + PageObjectModel option" where
  "findPageObjectByUrl b url = find_by_url (map snd (pageObjectRepository b)) url"

section \<open>Predicates of the statements\<close>

text \<open>A character of a generated name: a lower-case letter, a digit or the underscore.\<close>

definition safe_char :: "char \<Rightarrow> bool" where
  "safe_char c = (is_lower_alnum c \<or> c = CHR ''_'')"

text \<open>
  The name that the text of an element gives, in the words of the amended claim: the
  runs of lower-case letters and digits in the first 30 characters of the text, put in
  lower case, are joined by one underscore each.
\<close>

function alnum_runs :: "string \<Rightarrow> string list" where
  "alnum_runs s =
     (if dropWhile (\<lambda>c. \<not> is_lower_alnum c) s = [] then []
      else takeWhile is_lower_alnum (dropWhile (\<lambda>c. \<not> is_lower_alnum c) s)
             # alnum_runs (dropWhile is_lower_alnum (dropWhile (\<lambda>c. \<not> is_lower_alnum c) s)))"
  by pat_completeness auto
termination
proof (relation "measure length")
  fix s :: string
  assume "dropWhile (\<lambda>c. \<not> is_lower_alnum c) s \<noteq> []"
  then obtain c cs where r: "dropWhile (\<lambda>c. \<not> is_lower_alnum c) s = c # cs"
    by (cases "dropWhile (\<lambda>c. \<not> is_lower_alnum c) s") auto
  then have "is_lower_alnum c"
    using hd_dropWhile [of "\<lambda>c. \<not> is_lower_alnum c" s] by auto
  then have "length (dropWhile is_lower_alnum (c # cs)) \<le> length cs"
    by (simp add: length_dropWhile_le)
  also have "length cs < length (c # cs)" by simp
  also have "length (c # cs) \<le> length s"
    unfolding r [symmetric] by (rule length_dropWhile_le)
  finally show "(dropWhile is_lower_alnum (dropWhile (\<lambda>c. \<not> is_lower_alnum c) s), s) \<in> measure length"
    unfolding r by simp
qed simp

declare alnum_runs.simps [simp del]

fun join_underscore :: "string list \<Rightarrow> string" where
  "join_underscore [] = []"
| "join_underscore [w] = w"
| "join_underscore (w # v # ws) = w @ CHR ''_'' # join_underscore (v # ws)"

definition slug :: "string \<Rightarrow> string" where
  "slug text = join_underscore (alnum_runs (toLowerCase (take 30 text)))"

text \<open>The element's own property or method \<open>p\<close> is in reach: no control of that name
  stands in its way.\<close>

definition own :: "html_element \<Rightarrow> string \<Rightarrow> bool" where
  "own el p = (shadowed el p = None)"

text \<open>No \<open>id\<close>: \<open>el.id\<close> is the element's own and the \<open>id\<close> attribute is absent or
  empty.\<close>

definition no_id :: "html_element \<Rightarrow> bool" where
  "no_id el = (own el ''id'' \<and> \<not> truthy (getAttribute el ''id''))"



text \<open>A selector resolves on the live page when \<open>page.$\<close> answers with a handle.\<close>

definition resolves :: "browser \<Rightarrow> string \<Rightarrow> bool" where
  "resolves br sel = (case dollar br sel of Handle h \<Rightarrow> True | Null \<Rightarrow> False | Throws \<Rightarrow> False)"

section \<open>Example inputs\<close>

definition go_button :: html_element where
  "go_button =
     \<lparr> node = 0, tagName = ''BUTTON'', attrs = [(''id'', ''go''), (''data-testid'', ''start'')],
       textContent = ''Go'', classList = [], rect_width = 80, rect_height = 24,
       style_display = [], style_visibility = [], named = [] \<rparr>"

definition login_input :: html_element where
  "login_input =
     \<lparr> node = 1, tagName = ''INPUT'', attrs = [(''data-testid'', ''login''), (''name'', ''user'')],
       textContent = [], classList = [], rect_width = 120, rect_height = 20,
       style_display = [], style_visibility = [], named = [] \<rparr>"

definition empty_testid_input :: html_element where
  "empty_testid_input =
     \<lparr> node = 2, tagName = ''INPUT'', attrs = [(''data-testid'', []), (''name'', ''q'')],
       textContent = [], classList = [], rect_width = 120, rect_height = 20,
       style_display = [], style_visibility = [], named = [] \<rparr>"

definition labelled_div :: html_element where
  "labelled_div =
     \<lparr> node = 3, tagName = ''DIV'', attrs = [(''aria-label'', ''Close''), (''role'', ''button'')],
       textContent = [], classList = [''close-icon''], rect_width = 16, rect_height = 16,
       style_display = [], style_visibility = [], named = [] \<rparr>"



definition email_input :: html_element where
  "email_input =
     \<lparr> node = 6, tagName = ''INPUT'', attrs = [(''type'', ''email''), (''placeholder'', ''Email'')],
       textContent = [], classList = [], rect_width = 120, rect_height = 20,
       style_display = [], style_visibility = [], named = [] \<rparr>"

text \<open>A clickable form with the id \<open>f\<close> that holds \<open><input name="id">\<close>.\<close>

definition id_form :: html_element where
  "id_form =
     \<lparr> node = 8, tagName = ''FORM'', attrs = [(''id'', ''f''), (''onclick'', ''send()'')],
       textContent = [], classList = [], rect_width = 200, rect_height = 60,
       style_display = [], style_visibility = [],
       named = [(''id'', \<lparr> control_string = ''[object HTMLInputElement]'', control_items = [] \<rparr>)] \<rparr>"

text \<open>\<open><button> Sign In!! </button>\<close>, and the page that shows it above the e-mail
  input.\<close>

definition sign_in_button :: html_element where
  "sign_in_button =
     \<lparr> node = 9, tagName = ''BUTTON'', attrs = [],
       textContent = '' Sign In!! '', classList = [], rect_width = 80, rect_height = 24,
       style_display = [], style_visibility = [], named = [] \<rparr>"

text \<open>A page whose only interactive element is the e-mail input, and one whose only
  interactive element is the labelled \<open>div\<close>.\<close>

definition email_doc :: document where
  "email_doc sel = (if sel = ''input:not([type=\"hidden\"])'' then [email_input] else [])"

definition sign_in_doc :: document where
  "sign_in_doc sel =
     (if sel = ''button'' then [sign_in_button]
      else if sel = ''input:not([type=\"hidden\"])'' then [email_input]
      else [])"

definition close_doc :: document where
  "close_doc sel = (if sel = ''[role=\"button\"]'' then [labelled_div] else [])"

text \<open>A session with one mapped element whose primary selector is \<open>#old\<close>.\<close>

definition demo_element :: ElementMapping where
  "demo_element =
     \<lparr> em_id = ''e1'', em_name = ''go'', selector = ''#old'',
       alternativeSelectors = [''text=\"Go\"'', ''.btn''], em_type = Button,
       em_attributes = [(''class'', ''btn'')], em_text = Some ''Go'', em_screenshot = None,
       lastVerified = 1, isStable = True \<rparr>"

definition demo_session :: InteractiveSession where
  "demo_session =
     \<lparr> sess_id = ''s1'', currentUrl = ''http://shop.test/'', currentPageObject = None,
       recordedSteps = [], elementMappings = [(''e1'', demo_element)], isRecording = False,
       traceFile = None \<rparr>"

definition demo_builder :: builder where
  "demo_builder =
     \<lparr> sessions = [''s1'' \<mapsto> demo_session], pageObjectRepository = [], githubRepoPath = None \<rparr>"

text \<open>A page on which \<open>#old\<close> is gone and the text selector finds the button, and a
  page on which nothing is found.\<close>

definition moved_browser :: browser where
  "moved_browser =
     \<lparr> click_ok = (\<lambda>sel. True), fill_ok = (\<lambda>sel val. True), events = [],
       dollar = (\<lambda>sel. if sel = ''text=\"Go\"'' then Handle go_button else Null),
       dom = (\<lambda>sel. Some []), screenshot_ok = True, save_ok = True, trace_ok = True,
       close_ok = True \<rparr>"

definition blank_browser :: browser where
  "blank_browser =
     \<lparr> click_ok = (\<lambda>sel. False), fill_ok = (\<lambda>sel val. False), events = [],
       dollar = (\<lambda>sel. Null),
       dom = (\<lambda>sel. Some []), screenshot_ok = True, save_ok = True, trace_ok = True,
       close_ok = True \<rparr>"

text \<open>The page of \<open>moved_browser\<close> when the click follows a link, when the overlay
  reports the click, and when no screenshot can be taken.\<close>

definition link_browser :: browser where
  "link_browser = moved_browser\<lparr> events := [Navigated ''http://shop.test/next''] \<rparr>"

definition watched_browser :: browser where
  "watched_browser = moved_browser\<lparr> events := [Message (ActionRecorded Click ''button'')] \<rparr>"

definition blind_browser :: browser where
  "blind_browser = moved_browser\<lparr> screenshot_ok := False \<rparr>"

section \<open>Predicates and examples of the merge\<close>

text \<open>A selector-keyed map as the merge builds it: the keys are distinct, and every
  value sits under its own selector.\<close>

definition keyed :: "(string \<times> ElementMapping) list \<Rightarrow> bool" where
  "keyed m = (distinct (map fst m) \<and> (\<forall>p \<in> set m. selector (snd p) = fst p))"

text \<open>What the merge does to an entry that a current element matches.\<close>

definition refreshed :: "nat \<Rightarrow> ElementMapping \<Rightarrow> ElementMapping" where
  "refreshed now e = e\<lparr> lastVerified := now, isStable := True \<rparr>"

text \<open>The same on every entry whose key is in a set of selectors.\<close>

definition refresh :: "nat \<Rightarrow> string set \<Rightarrow> (string \<times> ElementMapping) list \<Rightarrow> (string \<times> ElementMapping) list" where
  "refresh now S m = map (\<lambda>p. if fst p \<in> S then (fst p, refreshed now (snd p)) else p) m"

text \<open>Every entry under one of the selectors is marked stable.\<close>

definition stable_on :: "string set \<Rightarrow> (string \<times> ElementMapping) list \<Rightarrow> bool" where
  "stable_on S m = (\<forall>p \<in> set m. fst p \<in> S \<longrightarrow> isStable (snd p))"

text \<open>The content of a descriptor apart from the time of its last verification.\<close>

definition without_time :: "ElementMapping \<Rightarrow> ElementMapping" where
  "without_time e = e\<lparr> lastVerified := 0 \<rparr>"

text \<open>A page object with two descriptors under the same selector.\<close>

definition demo_pom :: PageObjectModel where
  "demo_pom =
     \<lparr> pom_id = ''pom-3'', pom_name = ''HomePage'', pom_url = ''http://shop.test/'',
       urlPattern = Some ''/'', elements = [demo_element, demo_element\<lparr> em_id := ''e2'' \<rparr>],
       lastUpdated = 3, version = 1, screenshots = (''full.png'', ''thumb.png'') \<rparr>"

text \<open>The same page object, stored with the version \<open>2^53\<close>.\<close>

definition old_pom :: PageObjectModel where
  "old_pom = demo_pom\<lparr> version := 9007199254740992 \<rparr>"

section \<open>Predicates and examples of the recording\<close>

text \<open>The browser carried the action out: \<open>page.click\<close> or \<open>page.fill\<close> resolved.\<close>

fun carried_out :: "api_call \<times> browser \<times> nat \<Rightarrow> bool" where
  "carried_out (ClickElement sel ename, br, now) = click_ok br sel"
| "carried_out (FillElement sel val ename, br, now) = fill_ok br sel val"
| "carried_out (c, br, now) = False"

text \<open>The element of an action has to be mapped first: its selector is unknown to the
  session and a name came with the call.\<close>

definition needs_mapping :: "InteractiveSession \<Rightarrow> string \<Rightarrow> string option \<Rightarrow> bool" where
  "needs_mapping session sel ename =
     (\<not> truthy (findElementIdBySelector session sel) \<and> truthy ename)"

text \<open>Mapping the element throws no exception.\<close>

definition maps :: "builder \<Rightarrow> browser \<Rightarrow> nat \<Rightarrow> InteractiveSession \<Rightarrow> string \<Rightarrow> string option \<Rightarrow> bool" where
  "maps b br now session sel ename =
     (case snd (mapNewElement br (truthy (githubRepoPath b)) now session sel (interp ename)) of
        Inl e \<Rightarrow> False
      | Inr mapping \<Rightarrow> True)"

text \<open>The selector and the name that come with an action.\<close>

fun selector_of :: "api_call \<Rightarrow> string" where
  "selector_of (ClickElement sel ename) = sel"
| "selector_of (FillElement sel val ename) = sel"
| "selector_of c = []"

fun name_of :: "api_call \<Rightarrow> string option" where
  "name_of (ClickElement sel ename) = ename"
| "name_of (FillElement sel val ename) = ename"
| "name_of c = None"

text \<open>
  An action completes, and returns its step: the session exists, the browser carried the
  action out, the element did not have to be mapped or was mapped without an exception
  (on the session as the events of the page have left it), and the screenshot was taken.
\<close>

definition completes :: "string \<Rightarrow> builder \<Rightarrow> api_call \<times> browser \<times> nat \<Rightarrow> bool" where
  "completes sessionId b c =
     (case c of (call, br, now) \<Rightarrow>
        (case sessions b sessionId of
           None \<Rightarrow> False
         | Some session \<Rightarrow>
             carried_out c \<and> screenshot_ok br
             \<and> (needs_mapping (arrive br (truthy (githubRepoPath b)) now session)
                    (selector_of call) (name_of call)
                  \<longrightarrow> maps b br now (arrive br (truthy (githubRepoPath b)) now session)
                        (selector_of call) (name_of call))))"

text \<open>The step of an action, by what the call was given.\<close>

fun step_of :: "api_call \<times> browser \<times> nat \<Rightarrow> TestStep \<Rightarrow> bool" where
  "step_of (ClickElement sel ename, br, now) step =
     (action step = Click \<and> step_selector step = Some sel \<and> elementName step = ename
      \<and> step_value step = None \<and> timestamp step = now)"
| "step_of (FillElement sel val ename, br, now) step =
     (action step = Fill \<and> step_selector step = Some sel \<and> elementName step = ename
      \<and> step_value step = Some val \<and> timestamp step = now)"
| "step_of (c, br, now) step = False"

text \<open>The steps that the listeners push for what the page sends during an action, on a
  session that is recording: one for a navigation, one for an action that the overlay
  reports.\<close>

fun event_steps :: "nat \<Rightarrow> page_event \<Rightarrow> TestStep list" where
  "event_steps now (Navigated url) = [navigate_step now url]"
| "event_steps now (Message (ActionRecorded act sel)) = [reported_step now act sel]"
| "event_steps now (Message msg) = []"

definition arrived_steps :: "api_call \<times> browser \<times> nat \<Rightarrow> TestStep list" where
  "arrived_steps c = (case c of (call, br, now) \<Rightarrow> concat (map (event_steps now) (events br)))"

text \<open>The number of steps that one call or event adds to a session that is recording: an
  action adds the steps of what the page sends during it and one of its own when it
  completes; a navigation between the calls and an action that the overlay reports
  between the calls add one each.\<close>

fun adds :: "string \<Rightarrow> builder \<Rightarrow> api_call \<times> browser \<times> nat \<Rightarrow> nat" where
  "adds sessionId b (ClickElement sel ename, br, now) =
     length (arrived_steps (ClickElement sel ename, br, now))
       + (if completes sessionId b (ClickElement sel ename, br, now) then 1 else 0)"
| "adds sessionId b (FillElement sel val ename, br, now) =
     length (arrived_steps (FillElement sel val ename, br, now))
       + (if completes sessionId b (FillElement sel val ename, br, now) then 1 else 0)"
| "adds sessionId b (FrameNavigated url, br, now) = 1"
| "adds sessionId b (SendToBackend (ActionRecorded act sel), br, now) = 1"
| "adds sessionId b (call, br, now) = 0"

text \<open>The same along a trace, each call on the state that the calls before it left.\<close>

fun adds_all :: "string \<Rightarrow> builder \<Rightarrow> (api_call \<times> browser \<times> nat) list \<Rightarrow> nat" where
  "adds_all sessionId b [] = 0"
| "adds_all sessionId b (c # cs) = adds sessionId b c + adds_all sessionId (fst (exec sessionId b c)) cs"

text \<open>A message, an event, a call that neither starts nor stops the recording; for an
  action, what the page sends during it is of that kind too.\<close>

fun quiet_message :: "overlay_message \<Rightarrow> bool" where
  "quiet_message RecordingStarted = False"
| "quiet_message RecordingStopped = False"
| "quiet_message msg = True"

fun quiet_event :: "page_event \<Rightarrow> bool" where
  "quiet_event (Navigated url) = True"
| "quiet_event (Message msg) = quiet_message msg"

fun quiet :: "api_call \<times> browser \<times> nat \<Rightarrow> bool" where
  "quiet (StartRecording, br, now) = False"
| "quiet (StopRecording, br, now) = False"
| "quiet (ClickElement sel ename, br, now) = list_all quiet_event (events br)"
| "quiet (FillElement sel val ename, br, now) = list_all quiet_event (events br)"
| "quiet (FrameNavigated url, br, now) = True"
| "quiet (SendToBackend msg, br, now) = quiet_message msg"

text \<open>A trace on the demo session: a navigation event and a click before the recording
  starts; in the window a click that follows a link, a fill, a click that finds nothing,
  a click after which no screenshot can be taken, a click that the overlay reports, and
  a navigation on its own; a click on a link after the recording stopped.\<close>

definition demo_pre :: "(api_call \<times> browser \<times> nat) list" where
  "demo_pre =
     [(FrameNavigated ''http://shop.test/'', moved_browser, 9),
      (ClickElement ''#a'' None, moved_browser, 10)]"

definition demo_window :: "(api_call \<times> browser \<times> nat) list" where
  "demo_window =
     [(ClickElement ''#a'' None, link_browser, 12),
      (FillElement ''#q'' ''tea'' None, moved_browser, 13),
      (ClickElement ''#gone'' None, blank_browser, 14),
      (ClickElement ''#b'' None, blind_browser, 15),
      (ClickElement ''#c'' None, watched_browser, 16),
      (FrameNavigated ''http://shop.test/cart'', moved_browser, 17)]"

definition demo_post :: "(api_call \<times> browser \<times> nat) list" where
  "demo_post = [(ClickElement ''#a'' None, link_browser, 19)]"

section \<open>Predicates and examples of the lookup by URL\<close>

text \<open>A page object with the \<open>url\<close> and the \<open>urlPattern\<close> that \<open>createPageObjectModel\<close>
  gives it for a URL, and a repository that holds one page object.\<close>

definition pom_for :: "string \<Rightarrow> string \<Rightarrow> PageObjectModel" where
  "pom_for pid url =
     \<lparr> pom_id = pid, pom_name = ''Page'', pom_url = url,
       urlPattern = (case generateUrlPattern url of Inl e \<Rightarrow> None | Inr pattern \<Rightarrow> Some pattern),
       elements = [], lastUpdated = 1, version = 1, screenshots = (''full.png'', ''thumb.png'') \<rparr>"

definition repository_of :: "PageObjectModel \<Rightarrow> builder" where
  "repository_of pom =
     \<lparr> sessions = Map.empty, pageObjectRepository = [(pom_id pom, pom)], githubRepoPath = None \<rparr>"

text \<open>A character that a pattern reads as itself or, for the dot, as a character that
  also matches itself.\<close>

definition plain :: "char \<Rightarrow> bool" where
  "plain c = (c \<noteq> backslash \<and> c \<notin> set ''^$|?*+()[]{}'' \<and> \<not> is_line_terminator c)"

text \<open>The atom that the constructor makes of a plain character.\<close>

definition atom_of :: "char \<Rightarrow> atom" where
  "atom_of c = (if c = CHR ''.'' then AnyChar else Lit c)"

text \<open>The compiled pattern of a path of plain characters.\<close>

function pieces_of :: "string \<Rightarrow> piece list" where
  "pieces_of [] = []"
| "pieces_of (c # cs) =
     (if c = CHR ''/'' \<and> cs \<noteq> [] \<and> is_digit (hd cs)
      then [Atom (Lit CHR ''/'') Once, Atom Digit Plus] @ pieces_of (dropWhile is_digit cs)
      else Atom (atom_of c) Once # pieces_of cs)"
  by pat_completeness auto
termination
  by (relation "measure length") (auto simp: le_imp_less_Suc length_dropWhile_le)

section \<open>The primary selector\<close>

lemmas char_eval = char_of_def bit_Suc_0_iff

lemmas selector_eval =
  generateBestSelector_def el_id_def shadowed_def own_def no_id_def or_else_def truthy_def
  interp_def getAttribute_def trim_def toLowerCase_def lower_char_def is_ws_def char_eval

lemma el_id_own:
  "own el ''id'' \<Longrightarrow> el_id el = JsString (case getAttribute el ''id'' of None \<Rightarrow> [] | Some v \<Rightarrow> v)"
  by (simp add: el_id_def own_def)

lemma el_id_no_id: "no_id el \<Longrightarrow> el_id el = JsString []"
  by (auto simp: el_id_def own_def no_id_def truthy_def split: option.splits)

text \<open>
  Claim C1, as amended. An element with a non-empty \<open>id\<close> attribute, whose property
  \<open>el.id\<close> is its own, gets \<open>#<id>\<close>. An element without an \<open>id\<close> (\<open>el.id\<close> its own;
  no attribute, or an empty one), whose \<open>getAttribute\<close> is its own, and with a non-empty
  \<open>data-testid\<close> attribute gets the \<open>data-testid\<close> attribute selector of that value.
\<close>

theorem best_selector_id_then_testid:
  "(own el ''id'' \<and> getAttribute el ''id'' = Some i \<and> i \<noteq> [] \<longrightarrow>
      generateBestSelector el = Inr (''#'' @ i)) \<and>
   (no_id el \<and> own el ''getAttribute'' \<and> getAttribute el ''data-testid'' = Some v \<and> v \<noteq> [] \<longrightarrow>
      generateBestSelector el = Inr (''[data-testid=\"'' @ v @ ''\"]''))"
proof (intro conjI impI)
  assume "own el ''id'' \<and> getAttribute el ''id'' = Some i \<and> i \<noteq> []"
  then show "generateBestSelector el = Inr (''#'' @ i)"
    by (simp add: generateBestSelector_def el_id_own)
next
  assume "no_id el \<and> own el ''getAttribute'' \<and> getAttribute el ''data-testid'' = Some v \<and> v \<noteq> []"
  then show "generateBestSelector el = Inr (''[data-testid=\"'' @ v @ ''\"]'')"
    by (simp add: generateBestSelector_def el_id_no_id own_def or_else_def truthy_def interp_def)
qed

text \<open>Both cases at work: a button with \<open>id="go"\<close>, and an input with
  \<open>data-testid="login"\<close> and no \<open>id\<close>.\<close>

theorem best_selector_id_then_testid_witness:
  "generateBestSelector go_button = Inr ''#go'' \<and>
   generateBestSelector login_input = Inr ''[data-testid=\"login\"]''"
  using best_selector_id_then_testid [of go_button "''go''" "''start''"]
        best_selector_id_then_testid [of login_input "''x''" "''login''"]
  by (simp add: go_button_def login_input_def own_def no_id_def shadowed_def truthy_def
        getAttribute_def)

text \<open>
  Claim C1 as first stated fails for a \<open>data-testid\<close> attribute that is present and
  empty: \<open><input data-testid="" name="q">\<close> has the attribute and no \<open>id\<close>, the guard
  \<open>if (dataTestId)\<close> is false for the empty string, and the selector comes from \<open>name\<close>.
  It also fails for the form with \<open>id="f"\<close> that holds a control named \<open>id\<close>: \<open>el.id\<close>
  is the control, and the selector is made of the string of the control.
\<close>

theorem empty_testid_counterexample:
  "getAttribute empty_testid_input ''data-testid'' = Some [] \<and>
   getAttribute empty_testid_input ''id'' = None \<and>
   named empty_testid_input = [] \<and>
   generateBestSelector empty_testid_input = Inr ''[name=\"q\"]'' \<and>
   getAttribute id_form ''id'' = Some ''f'' \<and>
   generateBestSelector id_form = Inr ''#[object HTMLInputElement]''"
  by (simp add: selector_eval empty_testid_input_def id_form_def)




section \<open>Generated names\<close>

lemma set_collapse_underscores: "set (collapse_underscores s) \<subseteq> set s"
  by (induction s rule: collapse_underscores.induct) auto

lemma length_collapse_underscores: "length (collapse_underscores s) \<le> length s"
  by (induction s rule: collapse_underscores.induct) auto

lemma set_strip_underscores: "set (strip_underscores s) \<subseteq> set s"
  by (auto simp: strip_underscores_def Let_def split: list.splits if_splits dest: in_set_butlastD)

lemma length_strip_underscores: "length (strip_underscores s) \<le> length s"
  by (auto simp: strip_underscores_def Let_def split: list.splits)

lemma safe_replace_unsafe: "c \<in> set (replace_unsafe s) \<Longrightarrow> safe_char c"
  by (auto simp: replace_unsafe_def safe_char_def)

lemma safe_type_element_all: "list_all safe_char (type_name ty @ ''_element'')"
  by (cases ty) (simp_all add: safe_char_def is_lower_alnum_def)

lemma safe_type_element: "c \<in> set (type_name ty @ ''_element'') \<Longrightarrow> safe_char c"
  using safe_type_element_all [of ty] unfolding list_all_iff by blast

lemma length_type_element: "length (type_name ty @ ''_element'') \<le> 30"
  by (cases ty) auto

lemma generateElementName_safe:
  assumes "c \<in> set (generateElementName text (type_name ty))"
  shows "safe_char c"
proof -
  let ?r = "replace_unsafe (toLowerCase (take 30 text))"
  let ?b = "strip_underscores (collapse_underscores ?r)"
  show ?thesis
  proof (cases "?b = []")
    case True
    with assms have "c \<in> set (type_name ty @ ''_element'')"
      by (simp add: generateElementName_def Let_def)
    then show ?thesis by (rule safe_type_element)
  next
    case False
    with assms have "c \<in> set ?b"
      by (simp add: generateElementName_def Let_def)
    then have "c \<in> set ?r"
      using set_strip_underscores set_collapse_underscores by blast
    then show ?thesis by (rule safe_replace_unsafe)
  qed
qed

lemma generateElementName_length:
  "length (generateElementName text (type_name ty)) \<le> 30"
proof -
  let ?r = "replace_unsafe (toLowerCase (take 30 text))"
  have "length (strip_underscores (collapse_underscores ?r)) \<le> length ?r"
    using length_strip_underscores length_collapse_underscores le_trans by blast
  also have "\<dots> \<le> 30"
    by (simp add: replace_unsafe_def toLowerCase_def)
  finally show ?thesis
    using length_type_element [of ty] by (simp add: generateElementName_def Let_def)
qed

lemma generateElementName_nonempty: "generateElementName text (type_name ty) \<noteq> []"
  by (simp add: generateElementName_def Let_def)

text \<open>What is left of the text after the three \<open>replace\<close> calls, read as runs of letters
  and digits.\<close>

lemma underscore_not_alnum: "\<not> is_lower_alnum CHR ''_''"
  by (simp add: is_lower_alnum_def)

lemma collapse_plain_prefix:
  "\<forall>c \<in> set w. c \<noteq> CHR ''_'' \<Longrightarrow> collapse_underscores (w @ t) = w @ collapse_underscores t"
proof (induction w)
  case Nil
  then show ?case by simp
next
  case (Cons c w)
  then show ?case by (cases "w @ t") auto
qed

lemma collapse_underscore_prefix:
  "collapse_underscores (replicate (Suc n) CHR ''_'' @ t)
     = (if t \<noteq> [] \<and> hd t = CHR ''_'' then collapse_underscores t else CHR ''_'' # collapse_underscores t)"
proof (induction n)
  case 0
  then show ?case by (cases t) auto
next
  case (Suc n)
  then show ?case by simp
qed

lemma replace_unsafe_alnum: "\<forall>c \<in> set w. is_lower_alnum c \<Longrightarrow> replace_unsafe w = w"
  unfolding replace_unsafe_def by (intro map_idI) simp

lemma replace_unsafe_other:
  "\<forall>c \<in> set u. \<not> is_lower_alnum c \<Longrightarrow> replace_unsafe u = replicate (length u) CHR ''_''"
  unfolding replace_unsafe_def by (induction u) auto

lemma replace_unsafe_append: "replace_unsafe (a @ b) = replace_unsafe a @ replace_unsafe b"
  by (simp add: replace_unsafe_def)

lemma alnum_runs_none:
  "dropWhile (\<lambda>c. \<not> is_lower_alnum c) s = [] \<Longrightarrow> alnum_runs s = []"
  by (simp add: alnum_runs.simps [of s])

lemma alnum_runs_some:
  "dropWhile (\<lambda>c. \<not> is_lower_alnum c) s \<noteq> [] \<Longrightarrow>
     alnum_runs s = takeWhile is_lower_alnum (dropWhile (\<lambda>c. \<not> is_lower_alnum c) s)
                      # alnum_runs (dropWhile is_lower_alnum (dropWhile (\<lambda>c. \<not> is_lower_alnum c) s))"
  by (simp add: alnum_runs.simps [of s])

lemma alnum_runs_empty_iff: "alnum_runs s = [] \<longleftrightarrow> (\<forall>c \<in> set s. \<not> is_lower_alnum c)"
proof
  assume "alnum_runs s = []"
  then have "dropWhile (\<lambda>c. \<not> is_lower_alnum c) s = []"
    using alnum_runs_some [of s] by auto
  then show "\<forall>c \<in> set s. \<not> is_lower_alnum c"
    by (simp add: dropWhile_eq_Nil_conv)
next
  assume "\<forall>c \<in> set s. \<not> is_lower_alnum c"
  then show "alnum_runs s = []"
    by (intro alnum_runs_none) (simp add: dropWhile_eq_Nil_conv)
qed

lemma slug_shape:
  "collapse_underscores (replace_unsafe s) =
     (if s \<noteq> [] \<and> \<not> is_lower_alnum (hd s) then ''_'' else [])
       @ join_underscore (alnum_runs s)
       @ (if alnum_runs s \<noteq> [] \<and> \<not> is_lower_alnum (last s) then ''_'' else [])"
proof (induction s rule: alnum_runs.induct)
  case (1 s)
  define u where "u = takeWhile (\<lambda>c. \<not> is_lower_alnum c) s"
  define r where "r = dropWhile (\<lambda>c. \<not> is_lower_alnum c) s"
  have s: "s = u @ r"
    by (simp add: u_def r_def)
  have u: "\<forall>c \<in> set u. \<not> is_lower_alnum c"
    unfolding u_def using set_takeWhileD by fastforce
  have ru: "replace_unsafe u = replicate (length u) CHR ''_''"
    using u by (rule replace_unsafe_other)
  have lead: "(s \<noteq> [] \<and> \<not> is_lower_alnum (hd s)) \<longleftrightarrow> u \<noteq> []"
    unfolding u_def by (cases s) auto
  show ?case
  proof (cases "r = []")
    case True
    then have runs: "alnum_runs s = []"
      unfolding r_def by (rule alnum_runs_none)
    from s True have su: "s = u" by simp
    show ?thesis
    proof (cases u)
      case Nil
      with su runs show ?thesis by (simp add: replace_unsafe_def)
    next
      case (Cons c cs)
      then have "replace_unsafe s = replicate (Suc (length cs)) CHR ''_'' @ []"
        using ru su by simp
      then have "collapse_underscores (replace_unsafe s) = ''_''"
        by (simp only: collapse_underscore_prefix) simp
      with lead Cons runs show ?thesis by simp
    qed
  next
    case False
    define w where "w = takeWhile is_lower_alnum r"
    define t where "t = dropWhile is_lower_alnum r"
    have r: "r = w @ t"
      by (simp add: w_def t_def)
    have hr: "is_lower_alnum (hd r)"
      using False hd_dropWhile [of "\<lambda>c. \<not> is_lower_alnum c" s] unfolding r_def by auto
    have w: "\<forall>c \<in> set w. is_lower_alnum c"
      unfolding w_def using set_takeWhileD by fastforce
    have wne: "w \<noteq> []"
      unfolding w_def using False hr by (cases r) auto
    have w_plain: "\<forall>c \<in> set w. c \<noteq> CHR ''_''"
      using w underscore_not_alnum by auto
    have runs: "alnum_runs s = w # alnum_runs t"
      using alnum_runs_some [of s] False unfolding r_def [symmetric] w_def t_def by simp
    have IH: "collapse_underscores (replace_unsafe t) =
               (if t \<noteq> [] \<and> \<not> is_lower_alnum (hd t) then ''_'' else [])
                 @ join_underscore (alnum_runs t)
                 @ (if alnum_runs t \<noteq> [] \<and> \<not> is_lower_alnum (last t) then ''_'' else [])"
      using 1 False unfolding r_def t_def by simp
    have th: "t \<noteq> [] \<Longrightarrow> \<not> is_lower_alnum (hd t)"
      unfolding t_def using hd_dropWhile [of is_lower_alnum r] by auto
    have rs: "replace_unsafe s = replicate (length u) CHR ''_'' @ (w @ replace_unsafe t)"
      unfolding s r by (simp add: replace_unsafe_append ru replace_unsafe_alnum [OF w])
    have g: "collapse_underscores (replace_unsafe s)
               = (if u \<noteq> [] then ''_'' else []) @ w @ collapse_underscores (replace_unsafe t)"
    proof (cases u)
      case Nil
      with rs show ?thesis by (simp add: collapse_plain_prefix [OF w_plain])
    next
      case (Cons c cs)
      with rs have "replace_unsafe s = replicate (Suc (length cs)) CHR ''_'' @ (w @ replace_unsafe t)"
        by simp
      moreover have "hd (w @ replace_unsafe t) \<noteq> CHR ''_''"
        using wne w_plain by (cases w) auto
      ultimately show ?thesis
        using Cons wne by (simp only: collapse_underscore_prefix)
                          (simp add: collapse_plain_prefix [OF w_plain])
    qed
    show ?thesis
    proof (cases "t = []")
      case True
      then have "last s = last w" using s r wne by simp
      moreover have "is_lower_alnum (last w)" using w wne by simp
      moreover have "alnum_runs t = []" using True by (simp add: alnum_runs_none)
      ultimately show ?thesis
        using g lead runs True by (simp add: replace_unsafe_def)
    next
      case tne: False
      then have ls: "last s = last t" using s r by simp
      from tne th have lt: "t \<noteq> [] \<and> \<not> is_lower_alnum (hd t)" by simp
      show ?thesis
      proof (cases "alnum_runs t = []")
        case True
        then have "\<not> is_lower_alnum (last t)"
          using tne by (simp add: alnum_runs_empty_iff)
        with g lead runs True IH lt ls show ?thesis by simp
      next
        case False
        then obtain v vs where v: "alnum_runs t = v # vs" by (cases "alnum_runs t") auto
        with g lead runs IH lt ls show ?thesis by simp
      qed
    qed
  qed
qed


lemma alnum_runs_words:
  "w \<in> set (alnum_runs s) \<Longrightarrow> w \<noteq> [] \<and> (\<forall>c \<in> set w. is_lower_alnum c)"
proof (induction s rule: alnum_runs.induct)
  case (1 s)
  let ?r = "dropWhile (\<lambda>c. \<not> is_lower_alnum c) s"
  show ?case
  proof (cases "?r = []")
    case True
    with 1(2) show ?thesis by (simp add: alnum_runs_none)
  next
    case False
    then have "is_lower_alnum (hd ?r)"
      using hd_dropWhile [of "\<lambda>c. \<not> is_lower_alnum c" s] by auto
    with False have n: "takeWhile is_lower_alnum ?r \<noteq> []"
      by (cases ?r) auto
    have a: "\<forall>c \<in> set (takeWhile is_lower_alnum ?r). is_lower_alnum c"
      using set_takeWhileD by fastforce
    have "alnum_runs s = takeWhile is_lower_alnum ?r # alnum_runs (dropWhile is_lower_alnum ?r)"
      using False by (rule alnum_runs_some)
    with 1(2) have "w = takeWhile is_lower_alnum ?r
                    \<or> w \<in> set (alnum_runs (dropWhile is_lower_alnum ?r))"
      by (simp only: set_ConsD list.set insert_iff)
    then show ?thesis
    proof
      assume w: "w = takeWhile is_lower_alnum ?r"
      from n a show ?thesis unfolding w by (rule conjI)
    next
      assume "w \<in> set (alnum_runs (dropWhile is_lower_alnum ?r))"
      with False show ?thesis by (rule 1(1))
    qed
  qed
qed

lemma join_underscore_ends:
  "ws \<noteq> [] \<Longrightarrow> \<forall>w \<in> set ws. w \<noteq> [] \<and> (\<forall>c \<in> set w. is_lower_alnum c) \<Longrightarrow>
     join_underscore ws \<noteq> [] \<and> is_lower_alnum (hd (join_underscore ws))
     \<and> is_lower_alnum (last (join_underscore ws))"
proof (induction ws rule: join_underscore.induct)
  case 1
  then show ?case by simp
next
  case (2 w)
  then show ?case by (cases w) auto
next
  case (3 w v ws)
  then show ?case by (cases w) auto
qed

lemma join_underscore_safe:
  "\<forall>w \<in> set ws. \<forall>c \<in> set w. is_lower_alnum c \<Longrightarrow> list_all safe_char (join_underscore ws)"
  by (induction ws rule: join_underscore.induct) (auto simp: safe_char_def list_all_iff)

lemma strip_underscores_shape:
  assumes "j = [] \<Longrightarrow> \<not> b"
    and "j \<noteq> [] \<Longrightarrow> hd j \<noteq> CHR ''_'' \<and> last j \<noteq> CHR ''_''"
  shows "strip_underscores ((if a then ''_'' else []) @ j @ (if b then ''_'' else [])) = j"
proof (cases "j = []")
  case True
  with assms(1) show ?thesis by (simp add: strip_underscores_def)
next
  case False
  with assms(2) obtain c cs where j: "j = c # cs" "c \<noteq> CHR ''_''" "last (c # cs) \<noteq> CHR ''_''"
    by (cases j) auto
  then show ?thesis
    by (cases "cs = []") (auto simp: strip_underscores_def Let_def)
qed

text \<open>The three \<open>replace\<close> calls give the runs of letters and digits, joined by
  underscores.\<close>

lemma replaces_join_runs:
  "strip_underscores (collapse_underscores (replace_unsafe s)) = join_underscore (alnum_runs s)"
proof -
  have e: "alnum_runs s = [] \<Longrightarrow> join_underscore (alnum_runs s) = []"
    by simp
  have "join_underscore (alnum_runs s) \<noteq> [] \<Longrightarrow>
          hd (join_underscore (alnum_runs s)) \<noteq> CHR ''_'' \<and> last (join_underscore (alnum_runs s)) \<noteq> CHR ''_''"
  proof -
    assume n: "join_underscore (alnum_runs s) \<noteq> []"
    then have "alnum_runs s \<noteq> []" by auto
    from join_underscore_ends [OF this] alnum_runs_words [of _ s]
    show ?thesis using underscore_not_alnum by metis
  qed
  moreover have "join_underscore (alnum_runs s) = [] \<Longrightarrow>
          \<not> (alnum_runs s \<noteq> [] \<and> \<not> is_lower_alnum (last s))"
    using join_underscore_ends [of "alnum_runs s"] alnum_runs_words [of _ s] by blast
  ultimately show ?thesis
    unfolding slug_shape by (intro strip_underscores_shape)
qed

lemma generateElementName_slug:
  "generateElementName text ty = (if slug text = [] then ty @ ''_element'' else slug text)"
  by (simp add: generateElementName_def slug_def replaces_join_runs Let_def)

lemma slug_safe: "list_all safe_char (slug text)"
  unfolding slug_def using alnum_runs_words by (intro join_underscore_safe) blast

section \<open>Extraction\<close>

text \<open>Every raw element comes from an element that one of the seven queries returned.\<close>

lemma visit_elements:
  "visit el st = Inr st' \<Longrightarrow> set (snd st') \<subseteq> set (snd st) \<union> {r. raw_of el = Inr r}"
  by (cases st) (auto simp: visit_def split: if_splits sum.splits)

lemma visit_all_elements:
  "visit_all els st = Inr st' \<Longrightarrow>
     set (snd st') \<subseteq> set (snd st) \<union> {r. \<exists>el \<in> set els. raw_of el = Inr r}"
proof (induction els arbitrary: st)
  case Nil
  then show ?case by simp
next
  case (Cons el els)
  from Cons.prems obtain st1 where v: "visit el st = Inr st1" and r: "visit_all els st1 = Inr st'"
    by (auto split: sum.splits)
  from visit_elements [OF v] Cons.IH [OF r] show ?case by auto
qed

lemma query_all_elements:
  "query_all doc sels st = Inr st' \<Longrightarrow>
     set (snd st') \<subseteq> set (snd st)
        \<union> {r. \<exists>sel \<in> set sels. \<exists>el \<in> set (doc sel). raw_of el = Inr r}"
proof (induction sels arbitrary: st)
  case Nil
  then show ?case by simp
next
  case (Cons sel sels)
  from Cons.prems obtain st1 where v: "visit_all (doc sel) st = Inr st1"
      and r: "query_all doc sels st1 = Inr st'"
    by (auto split: sum.splits)
  from visit_all_elements [OF v] Cons.IH [OF r] show ?case by auto
qed

lemma collect_raw_elements:
  assumes "collect_raw doc = Inr rs" "r \<in> set rs"
  obtains sel el where "sel \<in> set interactive_selectors" "el \<in> set (doc sel)" "raw_of el = Inr r"
proof -
  from assms(1) obtain st where q: "query_all doc interactive_selectors ([], []) = Inr st"
      and rs: "rs = snd st"
    by (auto simp: collect_raw_def split: sum.splits)
  from query_all_elements [OF q] assms(2) rs
  have "\<exists>sel \<in> set interactive_selectors. \<exists>el \<in> set (doc sel). raw_of el = Inr r"
    by auto
  with that show thesis by blast
qed

lemma extract_obtain:
  assumes "extractAllElements doc now = Inr es" "e \<in> set es"
  obtains rs r index where "collect_raw doc = Inr rs" "e = to_mapping now (r, index)" "r \<in> set rs"
proof -
  from assms(1) obtain rs where c: "collect_raw doc = Inr rs"
      and es: "es = map (to_mapping now) (zip rs [0 ..< length rs])"
    by (auto simp: extractAllElements_def split: sum.splits)
  from assms(2) es obtain p where p: "p \<in> set (zip rs [0 ..< length rs])" and e: "e = to_mapping now p"
    by auto
  obtain r index where "p = (r, index)" by (cases p)
  with p e c that show thesis
    by (metis in_set_zipE)
qed

lemma extract_constant_fields:
  assumes "extractAllElements doc now = Inr es" "e \<in> set es"
  shows "alternativeSelectors e = [] \<and> isStable e"
proof -
  from assms obtain r index where "e = to_mapping now (r, index)" by (rule extract_obtain)
  then show ?thesis by (simp add: to_mapping_def)
qed

text \<open>A page that holds no form with controls is extracted without an exception.\<close>

lemma raw_of_plain: "named el = [] \<Longrightarrow> \<exists>r. raw_of el = Inr r"
  by (simp add: raw_of_def generateBestSelector_def detectType_def shadowed_def Let_def)

lemma visit_plain: "named el = [] \<Longrightarrow> \<exists>st'. visit el st = Inr st'"
  using raw_of_plain [of el] by (cases st) (auto simp: visit_def shadowed_def)

lemma visit_all_plain: "\<forall>el \<in> set els. named el = [] \<Longrightarrow> \<exists>st'. visit_all els st = Inr st'"
proof (induction els arbitrary: st)
  case Nil
  then show ?case by simp
next
  case (Cons el els)
  from Cons.prems visit_plain [of el st] obtain st1 where "visit el st = Inr st1" by auto
  with Cons.IH [of st1] Cons.prems show ?case by simp
qed

lemma query_all_plain:
  "\<forall>sel. \<forall>el \<in> set (doc sel). named el = [] \<Longrightarrow> \<exists>st'. query_all doc sels st = Inr st'"
proof (induction sels arbitrary: st)
  case Nil
  then show ?case by simp
next
  case (Cons sel sels)
  from Cons.prems visit_all_plain [of "doc sel" st] obtain st1
    where "visit_all (doc sel) st = Inr st1" by auto
  with Cons.IH [of st1] Cons.prems show ?case by simp
qed

lemma extract_plain:
  "\<forall>sel. \<forall>el \<in> set (doc sel). named el = [] \<Longrightarrow> \<exists>es. extractAllElements doc now = Inr es"
  using query_all_plain [of doc interactive_selectors "([], [])"]
  by (auto simp: extractAllElements_def collect_raw_def)

lemmas extract_eval =
  extractAllElements_def collect_raw_def interactive_selectors_def visit_def raw_of_def
  to_mapping_def detectType_def getAttributes_def generateElementName_def replace_unsafe_def
  strip_underscores_def is_lower_alnum_def decimal.simps digit_char_def selector_eval

lemma extract_email_doc:
  "extractAllElements email_doc 5 =
     Inr [\<lparr> em_id = ''element-5-0'', em_name = ''input_element'', selector = ''input'',
        alternativeSelectors = [], em_type = Input,
        em_attributes = [(''type'', ''email''), (''placeholder'', ''Email'')],
        em_text = Some [], em_screenshot = None, lastVerified = 5, isStable = True \<rparr>]"
  by (simp add: extract_eval email_doc_def email_input_def)

lemma extract_close_doc:
  "extractAllElements close_doc 7 =
     Inr [\<lparr> em_id = ''element-7-0'', em_name = ''other_element'', selector = ''div'',
        alternativeSelectors = [], em_type = Other,
        em_attributes = [(''aria-label'', ''Close''), (''role'', ''button'')],
        em_text = Some [], em_screenshot = None, lastVerified = 7, isStable = True \<rparr>]"
  by (simp add: extract_eval close_doc_def labelled_div_def)

lemma extract_sign_in_doc:
  "extractAllElements sign_in_doc 5 =
     Inr [\<lparr> em_id = ''element-5-0'', em_name = ''sign_in'', selector = ''text=\"Sign In!!\"'',
        alternativeSelectors = [], em_type = Button, em_attributes = [],
        em_text = Some ''Sign In!!'', em_screenshot = None, lastVerified = 5, isStable = True \<rparr>,
      \<lparr> em_id = ''element-5-1'', em_name = ''input_element'', selector = ''input'',
        alternativeSelectors = [], em_type = Input,
        em_attributes = [(''type'', ''email''), (''placeholder'', ''Email'')],
        em_text = Some [], em_screenshot = None, lastVerified = 5, isStable = True \<rparr>]"
  by (simp add: extract_eval sign_in_doc_def sign_in_button_def email_input_def)

text \<open>
  Claim C8, as amended. A descriptor that the extraction returns is made of one element
  of the page: its selector, its type, its trimmed text and its attributes are that
  element's, and its name is computed from that text and that type alone. The name is
  the runs of letters and digits in the first 30 characters of the text, put in lower
  case, joined by one underscore each; when the text has no letter and no digit there,
  the name is the type followed by \<open>_element\<close>. The name is never empty, has at most
  30 characters, and consists of lower-case letters, digits and underscores.
\<close>

theorem extracted_name_from_text:
  assumes "extractAllElements doc now = Inr es" and "e \<in> set es"
  shows "(\<exists>sel el. sel \<in> set interactive_selectors \<and> el \<in> set (doc sel)
            \<and> generateBestSelector el = Inr (selector e) \<and> detectType el = Inr (em_type e)
            \<and> em_text e = Some (trim (textContent el)) \<and> em_attributes e = getAttributes el
            \<and> em_name e = (if slug (trim (textContent el)) = []
                            then type_name (em_type e) @ ''_element''
                            else slug (trim (textContent el))))
         \<and> em_name e \<noteq> [] \<and> length (em_name e) \<le> 30 \<and> list_all safe_char (em_name e)"
proof -
  from assms obtain rs r index where e: "e = to_mapping now (r, index)" and r: "r \<in> set rs"
      and c: "collect_raw doc = Inr rs"
    by (rule extract_obtain)
  from c r obtain sel el where el: "sel \<in> set interactive_selectors" "el \<in> set (doc sel)"
      "raw_of el = Inr r"
    by (rule collect_raw_elements)
  from el(3) have raw: "generateBestSelector el = Inr (raw_selector r)" "detectType el = Inr (raw_type r)"
      "raw_text r = trim (textContent el)" "raw_attributes r = getAttributes el"
    by (auto simp: raw_of_def split: sum.splits if_splits)
  have name: "em_name e = generateElementName (trim (textContent el)) (type_name (em_type e))"
    using e raw by (simp add: to_mapping_def)
  have made: "generateBestSelector el = Inr (selector e) \<and> detectType el = Inr (em_type e)
            \<and> em_text e = Some (trim (textContent el)) \<and> em_attributes e = getAttributes el"
    using e raw by (simp add: to_mapping_def)
  have "list_all safe_char (em_name e)"
    unfolding name list_all_iff using generateElementName_safe by blast
  moreover have "em_name e \<noteq> []" "length (em_name e) \<le> 30"
    unfolding name by (rule generateElementName_nonempty generateElementName_length)+
  moreover have "em_name e = (if slug (trim (textContent el)) = []
                            then type_name (em_type e) @ ''_element''
                            else slug (trim (textContent el)))"
    unfolding name by (rule generateElementName_slug)
  ultimately show ?thesis
    using el(1,2) made by blast
qed

text \<open>On the page with the button, whose text gives the name, and the e-mail input,
  whose text is empty.\<close>

theorem extracted_name_from_text_witness:
  "\<exists>e1 e2. extractAllElements sign_in_doc 5 = Inr [e1, e2]
     \<and> em_text e1 = Some ''Sign In!!'' \<and> em_name e1 = ''sign_in''
     \<and> em_text e2 = Some [] \<and> em_name e2 = ''input_element''
     \<and> list_all safe_char (em_name e1) \<and> list_all safe_char (em_name e2)"
  using extracted_name_from_text [OF extract_sign_in_doc, of "\<lparr> em_id = ''element-5-0'', em_name = ''sign_in'', selector = ''text=\"Sign In!!\"'',
        alternativeSelectors = [], em_type = Button, em_attributes = [],
        em_text = Some ''Sign In!!'', em_screenshot = None, lastVerified = 5, isStable = True \<rparr>"]
    extracted_name_from_text [OF extract_sign_in_doc, of "\<lparr> em_id = ''element-5-1'', em_name = ''input_element'', selector = ''input'',
        alternativeSelectors = [], em_type = Input,
        em_attributes = [(''type'', ''email''), (''placeholder'', ''Email'')],
        em_text = Some [], em_screenshot = None, lastVerified = 5, isStable = True \<rparr>"]
  by (simp add: extract_sign_in_doc)

text \<open>
  Claim C8 as first stated tries the placeholder after the text. The e-mail input has
  no text and the placeholder \<open>Email\<close>; its name is \<open>input_element\<close>, the fallback, and
  not a name made from the placeholder.
\<close>

theorem placeholder_name_counterexample:
  "getAttribute email_input ''placeholder'' = Some ''Email'' \<and>
   trim (textContent email_input) = [] \<and>
   (\<exists>e. extractAllElements email_doc 5 = Inr [e] \<and> em_name e = ''input_element'')"
  by (simp add: extract_email_doc) (simp add: email_input_def getAttribute_def trim_def)

text \<open>
  Claim C9. Every descriptor that the extraction returns has an empty list of
  alternative selectors and is marked stable, whatever its primary selector is.
\<close>

theorem extraction_marks_every_element_stable:
  "extractAllElements doc now = Inr es \<Longrightarrow>
     \<forall>e \<in> set es. alternativeSelectors e = [] \<and> isStable e"
  using extract_constant_fields by blast

text \<open>On the page with the labelled \<open>div\<close>, whose primary selector is the bare tag name.\<close>

theorem extraction_marks_every_element_stable_witness:
  "\<exists>e. extractAllElements close_doc 7 = Inr [e] \<and> selector e = ''div''
     \<and> alternativeSelectors e = [] \<and> isStable e"
  using extraction_marks_every_element_stable [OF extract_close_doc]
  by (simp add: extract_close_doc)

section \<open>The stability check\<close>

lemma map_of_map_set: "map_of (map_set m k v) k' = (if k' = k then Some v else map_of m k')"
  by (induction m) auto

lemma map_set_same: "map_of m k = Some v \<Longrightarrow> map_set m k v = m"
  by (induction m) (auto split: if_splits)


lemma first_working_None:
  "\<forall>a \<in> set alts. \<forall>h. q a \<noteq> Handle h \<Longrightarrow> first_working q alts = None"
  by (induction alts) (auto split: query_result.splits)

lemma put_session_same: "sessions b sid = Some session \<Longrightarrow> b\<lparr> sessions := (sessions b)(sid \<mapsto> session) \<rparr> = b"
  by (simp add: fun_upd_idem)

text \<open>
  Claim C2. For an element of a session: when \<open>page.$\<close> answers \<open>null\<close> for the primary
  selector and finds the first alternative, the check returns \<open>true\<close> and the descriptor
  in the session has that alternative as its selector (and the time of the check). When
  neither the primary selector nor any alternative resolves, it returns \<open>false\<close> and
  the state is what it was.
\<close>

theorem stability_check_promotes_or_fails:
  assumes "sessions b sid = Some session"
    and "map_of (elementMappings session) eid = Some element"
  shows "(dollar br (selector element) = Null \<and> alternativeSelectors element = alt # rest
            \<and> dollar br alt = Handle h \<longrightarrow>
          (\<exists>b' session'. verifyElementStability b br now sid eid = Inr (True, b')
             \<and> sessions b' sid = Some session'
             \<and> map_of (elementMappings session') eid
                 = Some (element\<lparr> selector := alt, lastVerified := now \<rparr>)))
       \<and> (\<not> resolves br (selector element)
            \<and> (\<forall>a \<in> set (alternativeSelectors element). \<not> resolves br a) \<longrightarrow>
          verifyElementStability b br now sid eid = Inr (False, b))"
proof (intro conjI impI)
  assume "dollar br (selector element) = Null \<and> alternativeSelectors element = alt # rest
            \<and> dollar br alt = Handle h"
  then show "\<exists>b' session'. verifyElementStability b br now sid eid = Inr (True, b')
             \<and> sessions b' sid = Some session'
             \<and> map_of (elementMappings session') eid
                 = Some (element\<lparr> selector := alt, lastVerified := now \<rparr>)"
    using assms by (simp add: verifyElementStability_def verify_element_def map_of_map_set)
next
  assume fail: "\<not> resolves br (selector element)
            \<and> (\<forall>a \<in> set (alternativeSelectors element). \<not> resolves br a)"
  then have "first_working (dollar br) (alternativeSelectors element) = None"
    by (intro first_working_None) (auto simp: resolves_def)
  with fail have "verify_element (dollar br) now element = (False, element)"
    by (auto simp: verify_element_def resolves_def split: query_result.splits)
  then show "verifyElementStability b br now sid eid = Inr (False, b)"
    using assms by (simp add: verifyElementStability_def map_set_same put_session_same)
qed


text \<open>The demo session on the page where the button moved, and on the blank page.\<close>

theorem stability_check_promotes_or_fails_witness:
  "(\<exists>b' session'. verifyElementStability demo_builder moved_browser 9 ''s1'' ''e1'' = Inr (True, b')
      \<and> sessions b' ''s1'' = Some session'
      \<and> map_of (elementMappings session') ''e1''
           = Some (demo_element\<lparr> selector := ''text=\"Go\"'', lastVerified := 9 \<rparr>))
   \<and> verifyElementStability demo_builder blank_browser 9 ''s1'' ''e1'' = Inr (False, demo_builder)"
proof -
  have s: "sessions demo_builder ''s1'' = Some demo_session"
    by (simp add: demo_builder_def)
  have e: "map_of (elementMappings demo_session) ''e1'' = Some demo_element"
    by (simp add: demo_session_def)
  have p: "dollar moved_browser (selector demo_element) = Null
           \<and> alternativeSelectors demo_element = ''text=\"Go\"'' # [''.btn'']
           \<and> dollar moved_browser ''text=\"Go\"'' = Handle go_button"
    by (simp add: moved_browser_def demo_element_def)
  have f: "\<not> resolves blank_browser (selector demo_element)
           \<and> (\<forall>a \<in> set (alternativeSelectors demo_element). \<not> resolves blank_browser a)"
    by (simp add: blank_browser_def resolves_def)
  from stability_check_promotes_or_fails [OF s e, of moved_browser "''text=\"Go\"''" "[''.btn'']" go_button 9] p
       stability_check_promotes_or_fails [OF s e, of blank_browser "''x''" "[]" go_button 9] f
  show ?thesis by blast
qed



section \<open>Merging twice\<close>

lemma fst_map_set: "fst ` set (map_set m k v) = insert k (fst ` set m)"
  by (induction m) (force split: if_splits)+

lemma map_fst_map_set_present:
  "k \<in> fst ` set m \<Longrightarrow> map fst (map_set m k v) = map fst m"
  by (induction m) (force split: if_splits)+

lemma map_set_fresh: "k \<notin> fst ` set m \<Longrightarrow> map_set m k v = m @ [(k, v)]"
  by (induction m) auto

lemma distinct_map_set: "distinct (map fst m) \<Longrightarrow> distinct (map fst (map_set m k v))"
  by (induction m) (auto simp: fst_map_set)

lemma set_map_set: "set (map_set m k v) \<subseteq> insert (k, v) (set m)"
  by (induction m) (auto split: if_splits)

lemma keyed_map_set: "keyed m \<Longrightarrow> selector v = k \<Longrightarrow> keyed (map_set m k v)"
  unfolding keyed_def using distinct_map_set [of m k v] set_map_set [of m k v] by auto

lemma keyed_add_existing: "keyed m \<Longrightarrow> keyed (add_existing el m)"
  by (simp add: add_existing_def keyed_map_set)

lemma keyed_fold_add_existing: "keyed m \<Longrightarrow> keyed (fold add_existing els m)"
  by (induction els arbitrary: m) (simp_all add: keyed_add_existing)

lemma map_of_keyed: "keyed m \<Longrightarrow> map_of m k = Some v \<Longrightarrow> selector v = k"
  unfolding keyed_def by (metis map_of_SomeD fst_conv snd_conv)

lemma keyed_add_current:
  assumes "keyed m"
  shows "keyed (add_current now el m)"
proof (cases "map_of m (selector el)")
  case None
  with assms show ?thesis by (simp add: add_current_def keyed_map_set)
next
  case (Some v)
  with assms have "selector (v\<lparr> lastVerified := now, isStable := True \<rparr>) = selector el"
    by (simp add: map_of_keyed)
  with assms Some show ?thesis by (simp add: add_current_def keyed_map_set)
qed

lemma keyed_fold_add_current: "keyed m \<Longrightarrow> keyed (fold (add_current now) els m)"
  by (induction els arbitrary: m) (simp_all add: keyed_add_current)

text \<open>Rebuilding the map from its own values gives the map back.\<close>

lemma fold_add_existing_append:
  "keyed (m1 @ m2) \<Longrightarrow> fold add_existing (map snd m2) m1 = m1 @ m2"
proof (induction m2 arbitrary: m1)
  case Nil
  then show ?case by simp
next
  case (Cons p m2)
  obtain k v where p: "p = (k, v)" by (cases p)
  from Cons.prems p have k: "k \<notin> fst ` set m1" and s: "selector v = k"
    by (auto simp: keyed_def)
  then have "add_existing v m1 = m1 @ [(k, v)]"
    by (simp add: add_existing_def map_set_fresh)
  moreover from Cons.prems p have "keyed ((m1 @ [(k, v)]) @ m2)" by simp
  ultimately show ?case
    using Cons.IH [of "m1 @ [(k, v)]"] p by simp
qed

lemma fold_add_existing_values: "keyed m \<Longrightarrow> fold add_existing (map snd m) [] = m"
  using fold_add_existing_append [of "[]" m] by simp

text \<open>A current element whose selector is a key refreshes that entry.\<close>

lemma map_set_refresh:
  "distinct (map fst m) \<Longrightarrow> map_of m k = Some v \<Longrightarrow>
     map_set m k (refreshed now v) = refresh now {k} m"
proof (induction m)
  case Nil
  then show ?case by simp
next
  case (Cons p m)
  show ?case
  proof (cases "fst p = k")
    case True
    with Cons.prems have "k \<notin> fst ` set m" "snd p = v" by auto
    then have "refresh now {k} m = m"
      unfolding refresh_def by (intro map_idI) force
    with True \<open>snd p = v\<close> show ?thesis
      by (cases p) (simp add: refresh_def)
  next
    case False
    with Cons show ?thesis by (cases p) (auto simp: refresh_def)
  qed
qed

lemma add_current_present:
  "keyed m \<Longrightarrow> selector el \<in> fst ` set m \<Longrightarrow>
     add_current now el m = refresh now {selector el} m"
proof -
  assume k: "keyed m" and "selector el \<in> fst ` set m"
  then obtain v where v: "map_of m (selector el) = Some v"
    by (metis domD dom_map_of_conv_image_fst)
  with k show ?thesis
    using map_set_refresh [of m "selector el" v now]
    by (simp add: add_current_def keyed_def refreshed_def)
qed

lemma fst_refresh: "map fst (refresh now S m) = map fst m"
  by (simp add: refresh_def comp_def)

lemma keyed_refresh: "keyed m \<Longrightarrow> keyed (refresh now S m)"
  unfolding keyed_def by (auto simp: fst_refresh) (auto simp: refresh_def refreshed_def)

lemma refresh_refresh: "refresh now S (refresh now T m) = refresh now (S \<union> T) m"
  by (auto simp: refresh_def refreshed_def)

lemma fold_add_current_present:
  "keyed m \<Longrightarrow> selector ` set els \<subseteq> fst ` set m \<Longrightarrow>
     fold (add_current now) els m = refresh now (selector ` set els) m"
proof (induction els arbitrary: m)
  case Nil
  then show ?case by (simp add: refresh_def)
next
  case (Cons el els)
  let ?m = "refresh now {selector el} m"
  from Cons.prems have step: "add_current now el m = ?m"
    by (simp add: add_current_present)
  have "fst ` set ?m = fst ` set m"
    using fst_refresh [of now "{selector el}" m] by (metis list.set_map)
  with Cons.prems have "fold (add_current now) els ?m = refresh now (selector ` set els) ?m"
    by (intro Cons.IH keyed_refresh) auto
  with step show ?case
    by (simp add: refresh_refresh Un_commute)
qed

lemma add_current_keys: "fst ` set (add_current now el m) = insert (selector el) (fst ` set m)"
  by (auto simp: add_current_def fst_map_set split: option.splits)

lemma set_map_set_distinct:
  "distinct (map fst m) \<Longrightarrow> p \<in> set (map_set m k v) \<Longrightarrow> p = (k, v) \<or> (p \<in> set m \<and> fst p \<noteq> k)"
  by (induction m) (force split: if_splits)+

lemma add_current_stable:
  assumes "keyed m" "stable_on S m" "isStable el"
  shows "stable_on (insert (selector el) S) (add_current now el m)"
proof -
  have "p \<in> set m \<and> fst p \<noteq> selector el \<or> isStable (snd p)"
    if p: "p \<in> set (add_current now el m)" for p
  proof (cases "map_of m (selector el)")
    case None
    with p assms(1) have "p = (selector el, el) \<or> (p \<in> set m \<and> fst p \<noteq> selector el)"
      by (intro set_map_set_distinct) (auto simp: add_current_def keyed_def)
    with assms(3) show ?thesis by auto
  next
    case (Some v)
    with p assms(1) have "p = (selector el, v\<lparr> lastVerified := now, isStable := True \<rparr>)
                          \<or> (p \<in> set m \<and> fst p \<noteq> selector el)"
      by (intro set_map_set_distinct) (auto simp: add_current_def keyed_def)
    then show ?thesis by auto
  qed
  with assms(2) show ?thesis
    unfolding stable_on_def by blast
qed

lemma fold_add_current_result:
  assumes "keyed m" "stable_on S m" "\<forall>el \<in> set els. isStable el"
  shows "keyed (fold (add_current now) els m)
         \<and> stable_on (S \<union> selector ` set els) (fold (add_current now) els m)
         \<and> fst ` set (fold (add_current now) els m) = fst ` set m \<union> selector ` set els"
  using assms
proof (induction els arbitrary: m S)
  case Nil
  then show ?case by simp
next
  case (Cons el els)
  have "keyed (add_current now el m)"
    using Cons.prems(1) by (rule keyed_add_current)
  moreover have "stable_on (insert (selector el) S) (add_current now el m)"
    using Cons.prems by (intro add_current_stable) auto
  moreover have "\<forall>el \<in> set els. isStable el"
    using Cons.prems(3) by simp
  ultimately show ?case
    using Cons.IH [of "add_current now el m" "insert (selector el) S"]
    by (simp add: add_current_keys Un_commute insert_commute Un_insert_left Un_insert_right) 
qed

lemma keyed_Nil: "keyed []"
  by (simp add: keyed_def)

lemma merge_first:
  fixes es E t1
  assumes "\<forall>el \<in> set es. isStable el"
  defines "m1 \<equiv> fold (add_current t1) es (fold add_existing E [])"
  shows "keyed m1"
    and "stable_on (selector ` set es) m1"
    and "selector ` set es \<subseteq> fst ` set m1"
proof -
  have k: "keyed (fold add_existing E [])"
    by (intro keyed_fold_add_existing keyed_Nil)
  have s: "stable_on {} (fold add_existing E [])"
    by (simp add: stable_on_def)
  from fold_add_current_result [OF k s assms(1), of t1]
  show "keyed m1" "stable_on (selector ` set es) m1" "selector ` set es \<subseteq> fst ` set m1"
    unfolding m1_def by auto
qed

lemma merge_elements_twice:
  assumes "\<forall>el \<in> set es1. isStable el" and "selector ` set es2 = selector ` set es1"
  shows "merge_elements t2 (merge_elements t1 E es1) es2
     = map (\<lambda>e. if selector e \<in> selector ` set es2 then e\<lparr> lastVerified := t2 \<rparr> else e)
         (merge_elements t1 E es1)"
proof -
  define m1 where "m1 = fold (add_current t1) es1 (fold add_existing E [])"
  define S where "S = selector ` set es2"
  have S1: "S = selector ` set es1"
    unfolding S_def by (rule assms(2))
  have k: "keyed m1" and st: "stable_on S m1" and sub: "S \<subseteq> fst ` set m1"
    unfolding S1 m1_def by (rule merge_first [OF assms(1)])+
  have "fold (add_current t2) es2 (fold add_existing (map snd m1) []) = refresh t2 S m1"
    using k sub by (simp add: fold_add_existing_values fold_add_current_present S_def)
  moreover have "map snd (refresh t2 S m1)
          = map (\<lambda>e. if selector e \<in> S then e\<lparr> lastVerified := t2 \<rparr> else e) (map snd m1)"
  proof -
    have "snd (if fst p \<in> S then (fst p, refreshed t2 (snd p)) else p)
            = (if selector (snd p) \<in> S then (snd p)\<lparr> lastVerified := t2 \<rparr> else snd p)"
      if "p \<in> set m1" for p
      using that k st by (auto simp: keyed_def stable_on_def refreshed_def)
    then show ?thesis by (simp add: refresh_def)
  qed
  ultimately show ?thesis
    by (simp add: merge_elements_def m1_def S_def)
qed

lemma without_time_refreshed:
  "map without_time (map (\<lambda>e. if P e then e\<lparr> lastVerified := t \<rparr> else e) es) = map without_time es"
  by (simp add: without_time_def)

text \<open>The extraction of the same page at another time: the same selectors, in the same
  order.\<close>

lemma map_selector_to_mapping:
  "map selector (map (to_mapping now) (zip rs [0 ..< length rs])) = map raw_selector rs"
  by (simp add: to_mapping_def comp_def case_prod_beta)
     (simp add: map_fst_zip flip: map_map [of raw_selector fst, unfolded comp_def])

lemma extract_again:
  assumes "extractAllElements doc t1 = Inr es1"
  shows "\<exists>es2. extractAllElements doc t2 = Inr es2 \<and> map selector es2 = map selector es1"
proof -
  from assms obtain rs where c: "collect_raw doc = Inr rs"
      and es1: "es1 = map (to_mapping t1) (zip rs [0 ..< length rs])"
    by (auto simp: extractAllElements_def split: sum.splits)
  have "extractAllElements doc t2 = Inr (map (to_mapping t2) (zip rs [0 ..< length rs]))"
    using c by (simp add: extractAllElements_def)
  moreover have "map selector (map (to_mapping t2) (zip rs [0 ..< length rs])) = map selector es1"
    unfolding es1 by (simp only: map_selector_to_mapping)
  ultimately show ?thesis by blast
qed

text \<open>Adding one to a whole number whose successor is at most \<open>2^53\<close> in magnitude is
  exact; at \<open>2^53\<close> the sum is rounded back.\<close>

lemma increment_exact: "\<bar>x + 1\<bar> \<le> 2 ^ 53 \<Longrightarrow> increment x = x + 1"
  by (auto simp: increment_def to_double_def round_magnitude_def)

lemma increment_limit: "increment 9007199254740992 = 9007199254740992"
  by (simp add: increment_def to_double_def round_magnitude_def significant_bits.simps Let_def)

text \<open>
  Claim C3, as amended. When a page object has been updated from a page, updating it
  again from the same page returns, and leaves the elements as the first merge made
  them, up to the time of verification of the descriptors that the page still shows:
  none is added, dropped or reordered, and a descriptor matches by its primary selector.
  Each of the two calls adds one to a version whose successor is at most \<open>2^53\<close> in
  magnitude.
\<close>

theorem merge_update_twice:
  assumes "updatePageObjectModel doc t1 p = Inr p1"
  shows "\<exists>es p2. extractAllElements doc t2 = Inr es \<and> updatePageObjectModel doc t2 p1 = Inr p2
     \<and> elements p2 = map (\<lambda>e. if selector e \<in> selector ` set es
                                 then e\<lparr> lastVerified := t2 \<rparr> else e) (elements p1)
     \<and> map without_time (elements p2) = map without_time (elements p1)
     \<and> (\<bar>version p + 1\<bar> \<le> 2 ^ 53 \<longrightarrow> version p1 = version p + 1)
     \<and> (\<bar>version p1 + 1\<bar> \<le> 2 ^ 53 \<longrightarrow> version p2 = version p1 + 1)"
proof -
  from assms obtain es1 where x1: "extractAllElements doc t1 = Inr es1"
      and p1: "p1 = p\<lparr> elements := merge_elements t1 (elements p) es1, lastUpdated := t1,
                       version := increment (version p) \<rparr>"
    by (auto simp: updatePageObjectModel_def split: sum.splits)
  from extract_again [OF x1, of t2] obtain es2 where x2: "extractAllElements doc t2 = Inr es2"
      and sel: "map selector es2 = map selector es1"
    by blast
  define p2 where "p2 = p1\<lparr> elements := merge_elements t2 (elements p1) es2, lastUpdated := t2,
                            version := increment (version p1) \<rparr>"
  have u2: "updatePageObjectModel doc t2 p1 = Inr p2"
    using x2 by (simp add: updatePageObjectModel_def p2_def)
  have st: "\<forall>el \<in> set es1. isStable el"
    using extract_constant_fields [OF x1] by blast
  have "selector ` set es2 = selector ` set es1"
    using sel by (metis list.set_map)
  from merge_elements_twice [OF st this, of t2 t1 "elements p"]
  have e: "elements p2 = map (\<lambda>e. if selector e \<in> selector ` set es2
                                 then e\<lparr> lastVerified := t2 \<rparr> else e) (elements p1)"
    by (simp add: p1 p2_def)
  have w: "map without_time (elements p2) = map without_time (elements p1)"
    unfolding e by (rule without_time_refreshed)
  have v1: "\<bar>version p + 1\<bar> \<le> 2 ^ 53 \<longrightarrow> version p1 = version p + 1"
    by (simp add: p1 increment_exact)
  have v2: "\<bar>version p1 + 1\<bar> \<le> 2 ^ 53 \<longrightarrow> version p2 = version p1 + 1"
    by (simp add: p2_def increment_exact)
  from x2 u2 e w v1 v2 show ?thesis by blast
qed

lemma extract_close_doc_9:
  "extractAllElements close_doc 9 =
     Inr [\<lparr> em_id = ''element-9-0'', em_name = ''other_element'', selector = ''div'',
        alternativeSelectors = [], em_type = Other,
        em_attributes = [(''aria-label'', ''Close''), (''role'', ''button'')],
        em_text = Some [], em_screenshot = None, lastVerified = 9, isStable = True \<rparr>]"
  by (simp add: extract_eval close_doc_def labelled_div_def)

lemma update_demo_pom:
  "updatePageObjectModel close_doc 7 demo_pom =
     Inr (demo_pom\<lparr> elements :=
       [demo_element\<lparr> em_id := ''e2'' \<rparr>,
        \<lparr> em_id = ''element-7-0'', em_name = ''other_element'', selector = ''div'',
          alternativeSelectors = [], em_type = Other,
          em_attributes = [(''aria-label'', ''Close''), (''role'', ''button'')],
          em_text = Some [], em_screenshot = None, lastVerified = 7, isStable = True \<rparr>],
       lastUpdated := 7, version := 2 \<rparr>)"
  by (simp add: updatePageObjectModel_def merge_elements_def add_existing_def add_current_def
        extract_close_doc demo_pom_def demo_element_def increment_exact)

text \<open>On the page object with two descriptors under one selector: the first merge keeps
  the later of the two and adds the \<open>div\<close>, the second changes the time of the \<open>div\<close>.\<close>

theorem merge_update_twice_witness:
  "\<exists>p1 p2. updatePageObjectModel close_doc 7 demo_pom = Inr p1
     \<and> updatePageObjectModel close_doc 9 p1 = Inr p2
     \<and> map em_id (elements p2) = [''e2'', ''element-7-0'']
     \<and> map lastVerified (elements p2) = [1, 9]
     \<and> version p1 = 2 \<and> version p2 = 3"
proof -
  from merge_update_twice [OF update_demo_pom, of 9] obtain es p2
    where x: "extractAllElements close_doc 9 = Inr es"
      and u: "updatePageObjectModel close_doc 9
                (demo_pom\<lparr> elements :=
                   [demo_element\<lparr> em_id := ''e2'' \<rparr>,
                    \<lparr> em_id = ''element-7-0'', em_name = ''other_element'', selector = ''div'',
                      alternativeSelectors = [], em_type = Other,
                      em_attributes = [(''aria-label'', ''Close''), (''role'', ''button'')],
                      em_text = Some [], em_screenshot = None, lastVerified = 7, isStable = True \<rparr>],
                   lastUpdated := 7, version := 2 \<rparr>) = Inr p2"
      and e: "elements p2 = map (\<lambda>e. if selector e \<in> selector ` set es
                                 then e\<lparr> lastVerified := 9 \<rparr> else e)
                [demo_element\<lparr> em_id := ''e2'' \<rparr>,
                    \<lparr> em_id = ''element-7-0'', em_name = ''other_element'', selector = ''div'',
                      alternativeSelectors = [], em_type = Other,
                      em_attributes = [(''aria-label'', ''Close''), (''role'', ''button'')],
                      em_text = Some [], em_screenshot = None, lastVerified = 7, isStable = True \<rparr>]"
      and v: "version p2 = 3"
    by auto
  from x have es: "selector ` set es = {''div''}"
    by (auto simp: extract_close_doc_9)
  have "map em_id (elements p2) = [''e2'', ''element-7-0'']"
       "map lastVerified (elements p2) = [1, 9]"
    unfolding e es by (simp_all add: demo_element_def)
  with u v update_demo_pom show ?thesis
    by simp
qed

text \<open>
  Claim C3 as first stated has every call add one to the version. The version is a
  JavaScript number: on a page object that was stored with the version \<open>2^53\<close>, the call
  returns and the version is what it was.
\<close>

theorem version_limit_counterexample:
  "version old_pom = 2 ^ 53
   \<and> (\<exists>p1. updatePageObjectModel close_doc 7 old_pom = Inr p1 \<and> version p1 = version old_pom)"
  by (simp add: updatePageObjectModel_def extract_close_doc old_pom_def increment_limit)

section \<open>The recording window\<close>

lemma mapNewElement_recording:
  "isRecording (fst (mapNewElement br saving now session sel name)) = isRecording session
   \<and> recordedSteps (fst (mapNewElement br saving now session sel name)) = recordedSteps session"
  by (auto simp: mapNewElement_def Let_def split: query_result.splits sum.splits option.splits)

text \<open>What the page sends during an action, when it neither starts nor stops the
  recording.\<close>

lemma deliver_quiet:
  assumes "quiet_event ev"
  shows "isRecording (deliver br saving now ev s) = isRecording s
       \<and> recordedSteps (deliver br saving now ev s)
           = recordedSteps s @ (if isRecording s then event_steps now ev else [])"
proof (cases ev)
  case (Navigated url)
  then show ?thesis by (simp add: on_framenavigated_def)
next
  case (Message msg)
  with assms mapNewElement_recording [of br saving now s] show ?thesis
    by (cases msg) (simp_all add: on_message_def)
qed

lemma fold_deliver_quiet:
  "list_all quiet_event evs \<Longrightarrow>
     isRecording (fold (deliver br saving now) evs s) = isRecording s
     \<and> recordedSteps (fold (deliver br saving now) evs s)
         = recordedSteps s @ (if isRecording s then concat (map (event_steps now) evs) else [])"
proof (induction evs arbitrary: s)
  case Nil
  then show ?case by simp
next
  case (Cons ev evs)
  from Cons.prems have q: "quiet_event ev" and rest: "list_all quiet_event evs"
    by simp_all
  from deliver_quiet [OF q, of br saving now s] Cons.IH [OF rest, of "deliver br saving now ev s"]
  show ?case by simp
qed

lemma arrive_quiet:
  "list_all quiet_event (events br) \<Longrightarrow>
     isRecording (arrive br saving now s) = isRecording s
     \<and> recordedSteps (arrive br saving now s)
         = recordedSteps s
             @ (if isRecording s then concat (map (event_steps now) (events br)) else [])"
  unfolding arrive_def by (rule fold_deliver_quiet)

lemma map_if_unmapped_result:
  assumes "map_if_unmapped br (truthy (githubRepoPath b)) now s0 sel ename = (s1, r1)"
  shows "isRecording s1 = isRecording s0 \<and> recordedSteps s1 = recordedSteps s0
         \<and> ((\<exists>eid. r1 = Inr eid) \<longleftrightarrow> (needs_mapping s0 sel ename \<longrightarrow> maps b br now s0 sel ename))"
proof (cases "needs_mapping s0 sel ename")
  case False
  with assms show ?thesis
    by (auto simp: map_if_unmapped_def needs_mapping_def Let_def)
next
  case True
  obtain s' r where m: "mapNewElement br (truthy (githubRepoPath b)) now s0 sel (interp ename) = (s', r)"
    by (cases "mapNewElement br (truthy (githubRepoPath b)) now s0 sel (interp ename)")
  with mapNewElement_recording [of br "truthy (githubRepoPath b)" now s0 sel "interp ename"]
  have s': "isRecording s' = isRecording s0" "recordedSteps s' = recordedSteps s0"
    by simp_all
  from True have n: "\<not> truthy (findElementIdBySelector s0 sel) \<and> truthy ename"
    by (simp add: needs_mapping_def)
  show ?thesis
  proof (cases r)
    case (Inl e)
    with assms n m s' True show ?thesis
      by (auto simp: map_if_unmapped_def maps_def Let_def)
  next
    case (Inr mapping)
    with assms n m s' True show ?thesis
      by (auto simp: map_if_unmapped_def maps_def Let_def)
  qed
qed

lemma record_step_result:
  "record_step br now s1 act eid ename sel val = (s2, r2) \<Longrightarrow>
     isRecording s2 = isRecording s1
     \<and> (screenshot_ok br \<longrightarrow>
          (\<exists>step. r2 = Inr step \<and> action step = act \<and> step_selector step = Some sel
             \<and> elementName step = ename \<and> step_value step = val \<and> timestamp step = now
             \<and> recordedSteps s2 = recordedSteps s1 @ (if isRecording s1 then [step] else [])))
     \<and> (\<not> screenshot_ok br \<longrightarrow> (\<exists>e. r2 = Inl e) \<and> recordedSteps s2 = recordedSteps s1)"
  by (auto simp: record_step_def Let_def split: if_splits)

text \<open>What one click does to the session.\<close>

lemma clickElement_effect:
  fixes sel ename br now
  assumes "sessions b sid = Some s"
  defines "c \<equiv> (ClickElement sel ename, br, now)"
  assumes "quiet c"
  shows "\<exists>s'. sessions (fst (exec sid b c)) sid = Some s' \<and> isRecording s' = isRecording s
           \<and> (completes sid b c \<longrightarrow>
                (\<exists>step. snd (exec sid b c) = Some step \<and> step_of c step
                   \<and> recordedSteps s' = recordedSteps s
                        @ (if isRecording s then arrived_steps c @ [step] else [])))
           \<and> (\<not> completes sid b c \<longrightarrow>
                snd (exec sid b c) = None
                \<and> recordedSteps s' = recordedSteps s
                     @ (if isRecording s then arrived_steps c else []))"
proof -
  define s0 where "s0 = arrive br (truthy (githubRepoPath b)) now s"
  define xs where "xs = recordedSteps s @ (if isRecording s then arrived_steps c else [])"
  from assms(3) have "list_all quiet_event (events br)"
    by (simp add: c_def)
  from arrive_quiet [OF this, of "truthy (githubRepoPath b)" now s]
  have s0: "isRecording s0 = isRecording s" "recordedSteps s0 = xs"
    by (simp_all add: s0_def xs_def arrived_steps_def c_def)
  show ?thesis
  proof (cases "click_ok br sel")
    case False
    with assms(1) s0 show ?thesis
      by (simp add: clickElement_def completes_def put_session_def c_def s0_def [symmetric] xs_def)
  next
    case True
    obtain s1 r1 where m: "map_if_unmapped br (truthy (githubRepoPath b)) now s0 sel ename = (s1, r1)"
      by (cases "map_if_unmapped br (truthy (githubRepoPath b)) now s0 sel ename")
    from map_if_unmapped_result [OF m] s0
    have s1: "isRecording s1 = isRecording s" "recordedSteps s1 = xs"
      and r1: "(\<exists>eid. r1 = Inr eid) \<longleftrightarrow> (needs_mapping s0 sel ename \<longrightarrow> maps b br now s0 sel ename)"
      by simp_all
    have comp: "completes sid b c \<longleftrightarrow> screenshot_ok br \<and> (\<exists>eid. r1 = Inr eid)"
      using assms(1) True r1 by (auto simp: completes_def c_def s0_def)
    show ?thesis
    proof (cases r1)
      case (Inl e)
      with assms(1) True m s1 comp show ?thesis
        by (simp add: clickElement_def put_session_def c_def xs_def s0_def [symmetric])
    next
      case (Inr eid)
      obtain s2 r2 where rs: "record_step br now s1 Click eid ename sel None = (s2, r2)"
        by (cases "record_step br now s1 Click eid ename sel None")
      have e: "exec sid b c = (put_session b sid s2, (case r2 of Inl e \<Rightarrow> None | Inr step \<Rightarrow> Some step))"
        using assms(1) True m Inr rs
        by (cases r2) (simp_all add: clickElement_def c_def s0_def [symmetric])
      show ?thesis
      proof (cases "screenshot_ok br")
        case True
        with record_step_result [OF rs] obtain step where
            "r2 = Inr step" "action step = Click" "step_selector step = Some sel"
            "elementName step = ename" "step_value step = None" "timestamp step = now"
            "recordedSteps s2 = recordedSteps s1 @ (if isRecording s1 then [step] else [])"
            "isRecording s2 = isRecording s1"
          by blast
        with e s1 comp Inr True show ?thesis
          by (simp add: put_session_def xs_def c_def)
      next
        case False
        with record_step_result [OF rs] obtain err where
            "r2 = Inl err" "recordedSteps s2 = recordedSteps s1" "isRecording s2 = isRecording s1"
          by blast
        with e s1 comp False show ?thesis
          by (simp add: put_session_def xs_def)
      qed
    qed
  qed
qed

text \<open>And one fill.\<close>

lemma fillElement_effect:
  fixes sel val ename br now
  assumes "sessions b sid = Some s"
  defines "c \<equiv> (FillElement sel val ename, br, now)"
  assumes "quiet c"
  shows "\<exists>s'. sessions (fst (exec sid b c)) sid = Some s' \<and> isRecording s' = isRecording s
           \<and> (completes sid b c \<longrightarrow>
                (\<exists>step. snd (exec sid b c) = Some step \<and> step_of c step
                   \<and> recordedSteps s' = recordedSteps s
                        @ (if isRecording s then arrived_steps c @ [step] else [])))
           \<and> (\<not> completes sid b c \<longrightarrow>
                snd (exec sid b c) = None
                \<and> recordedSteps s' = recordedSteps s
                     @ (if isRecording s then arrived_steps c else []))"
proof -
  define s0 where "s0 = arrive br (truthy (githubRepoPath b)) now s"
  define xs where "xs = recordedSteps s @ (if isRecording s then arrived_steps c else [])"
  from assms(3) have "list_all quiet_event (events br)"
    by (simp add: c_def)
  from arrive_quiet [OF this, of "truthy (githubRepoPath b)" now s]
  have s0: "isRecording s0 = isRecording s" "recordedSteps s0 = xs"
    by (simp_all add: s0_def xs_def arrived_steps_def c_def)
  show ?thesis
  proof (cases "fill_ok br sel val")
    case False
    with assms(1) s0 show ?thesis
      by (simp add: fillElement_def completes_def put_session_def c_def s0_def [symmetric] xs_def)
  next
    case True
    obtain s1 r1 where m: "map_if_unmapped br (truthy (githubRepoPath b)) now s0 sel ename = (s1, r1)"
      by (cases "map_if_unmapped br (truthy (githubRepoPath b)) now s0 sel ename")
    from map_if_unmapped_result [OF m] s0
    have s1: "isRecording s1 = isRecording s" "recordedSteps s1 = xs"
      and r1: "(\<exists>eid. r1 = Inr eid) \<longleftrightarrow> (needs_mapping s0 sel ename \<longrightarrow> maps b br now s0 sel ename)"
      by simp_all
    have comp: "completes sid b c \<longleftrightarrow> screenshot_ok br \<and> (\<exists>eid. r1 = Inr eid)"
      using assms(1) True r1 by (auto simp: completes_def c_def s0_def)
    show ?thesis
    proof (cases r1)
      case (Inl e)
      with assms(1) True m s1 comp show ?thesis
        by (simp add: fillElement_def put_session_def c_def xs_def s0_def [symmetric])
    next
      case (Inr eid)
      obtain s2 r2 where rs: "record_step br now s1 Fill eid ename sel (Some val) = (s2, r2)"
        by (cases "record_step br now s1 Fill eid ename sel (Some val)")
      have e: "exec sid b c = (put_session b sid s2, (case r2 of Inl e \<Rightarrow> None | Inr step \<Rightarrow> Some step))"
        using assms(1) True m Inr rs
        by (cases r2) (simp_all add: fillElement_def c_def s0_def [symmetric])
      show ?thesis
      proof (cases "screenshot_ok br")
        case True
        with record_step_result [OF rs] obtain step where
            "r2 = Inr step" "action step = Fill" "step_selector step = Some sel"
            "elementName step = ename" "step_value step = Some val" "timestamp step = now"
            "recordedSteps s2 = recordedSteps s1 @ (if isRecording s1 then [step] else [])"
            "isRecording s2 = isRecording s1"
          by blast
        with e s1 comp Inr True show ?thesis
          by (simp add: put_session_def xs_def c_def)
      next
        case False
        with record_step_result [OF rs] obtain err where
            "r2 = Inl err" "recordedSteps s2 = recordedSteps s1" "isRecording s2 = isRecording s1"
          by blast
        with e s1 comp False show ?thesis
          by (simp add: put_session_def xs_def)
      qed
    qed
  qed
qed

lemma action_effect:
  assumes "sessions b sid = Some s" "is_action (fst c)" "quiet c"
  shows "\<exists>s'. sessions (fst (exec sid b c)) sid = Some s' \<and> isRecording s' = isRecording s
           \<and> (completes sid b c \<longrightarrow>
                (\<exists>step. snd (exec sid b c) = Some step \<and> step_of c step
                   \<and> recordedSteps s' = recordedSteps s
                        @ (if isRecording s then arrived_steps c @ [step] else [])))
           \<and> (\<not> completes sid b c \<longrightarrow>
                snd (exec sid b c) = None
                \<and> recordedSteps s' = recordedSteps s
                     @ (if isRecording s then arrived_steps c else []))"
proof -
  obtain call br now where c: "c = (call, br, now)" by (cases c)
  show ?thesis
  proof (cases call)
    case (ClickElement sel ename)
    show ?thesis
      using assms(3) unfolding c ClickElement by (rule clickElement_effect [OF assms(1)])
  next
    case (FillElement sel val ename)
    show ?thesis
      using assms(3) unfolding c FillElement by (rule fillElement_effect [OF assms(1)])
  qed (use assms(2) c in simp_all)
qed

lemma run_append: "run sid b (xs @ ys) = run sid (run sid b xs) ys"
  by (induction xs arbitrary: b) simp_all

lemma startRecording_effect:
  assumes "sessions b sid = Some s"
  shows "\<exists>s'. sessions (fst (exec sid b (StartRecording, br, now))) sid = Some s'
           \<and> isRecording s' \<and> recordedSteps s' = []"
  using assms by (simp add: startRecording_def)

lemma stopRecording_effect:
  assumes "sessions b sid = Some s"
  shows "\<exists>s'. sessions (fst (exec sid b (StopRecording, br, now))) sid = Some s'
           \<and> \<not> isRecording s' \<and> recordedSteps s' = recordedSteps s"
  using assms by (simp add: stopRecording_def Let_def)

text \<open>What a call or event that neither starts nor stops the recording does to the
  session.\<close>

lemma exec_quiet:
  assumes "sessions b sid = Some s" "quiet c"
  shows "\<exists>s'. sessions (fst (exec sid b c)) sid = Some s' \<and> isRecording s' = isRecording s
           \<and> length (recordedSteps s')
                = length (recordedSteps s) + (if isRecording s then adds sid b c else 0)
           \<and> (\<not> isRecording s \<longrightarrow> recordedSteps s' = recordedSteps s)"
proof -
  obtain call br now where c: "c = (call, br, now)" by (cases c)
  have action: ?thesis if a: "is_action call"
  proof -
    from a c have ia: "is_action (fst c)" by simp
    from a have adds: "adds sid b c = length (arrived_steps c) + (if completes sid b c then 1 else 0)"
      unfolding c by (cases call) simp_all
    from action_effect [OF assms(1) ia assms(2)] obtain s' where
        s': "sessions (fst (exec sid b c)) sid = Some s'" "isRecording s' = isRecording s"
        and yes: "completes sid b c \<Longrightarrow> \<exists>step. recordedSteps s' = recordedSteps s
                        @ (if isRecording s then arrived_steps c @ [step] else [])"
        and no: "\<not> completes sid b c \<Longrightarrow> recordedSteps s' = recordedSteps s
                     @ (if isRecording s then arrived_steps c else [])"
      by blast
    show ?thesis
    proof (cases "completes sid b c")
      case True
      from yes [OF True] obtain step where
        "recordedSteps s' = recordedSteps s @ (if isRecording s then arrived_steps c @ [step] else [])"
        by blast
      with s' True adds show ?thesis by auto
    next
      case False
      from no [OF False] s' False adds show ?thesis by auto
    qed
  qed
  show ?thesis
  proof (cases call)
    case StartRecording
    with assms(2) c show ?thesis by simp
  next
    case StopRecording
    with assms(2) c show ?thesis by simp
  next
    case (ClickElement sel ename)
    then show ?thesis by (intro action) simp
  next
    case (FillElement sel val ename)
    then show ?thesis by (intro action) simp
  next
    case (FrameNavigated url)
    with c assms(1) show ?thesis
      by (simp add: frame_navigated_def on_framenavigated_def put_session_def)
  next
    case (SendToBackend msg)
    with assms(2) c have q: "quiet_event (Message msg)" by simp
    from deliver_quiet [OF q, of br "truthy (githubRepoPath b)" now s] c SendToBackend assms(1)
    show ?thesis
      by (cases msg) (simp_all add: send_to_backend_def put_session_def)
  qed
qed

lemma exec_keeps_session:
  assumes "sessions b sid = Some s"
  shows "\<exists>s'. sessions (fst (exec sid b c)) sid = Some s'"
proof -
  obtain call br now where c: "c = (call, br, now)" by (cases c)
  show ?thesis
  proof (cases call)
    case StartRecording
    with c startRecording_effect [OF assms, of br now] show ?thesis by auto
  next
    case StopRecording
    with c stopRecording_effect [OF assms, of br now] show ?thesis by auto
  next
    case (ClickElement sel ename)
    with c assms show ?thesis
      by (auto simp: clickElement_def put_session_def Let_def split: prod.splits sum.splits)
  next
    case (FillElement sel val ename)
    with c assms show ?thesis
      by (auto simp: fillElement_def put_session_def Let_def split: prod.splits sum.splits)
  next
    case (FrameNavigated url)
    with c assms show ?thesis by (simp add: frame_navigated_def put_session_def)
  next
    case (SendToBackend msg)
    with c assms show ?thesis by (simp add: send_to_backend_def put_session_def)
  qed
qed

lemma run_keeps_session:
  "sessions b sid = Some s \<Longrightarrow> \<exists>s'. sessions (run sid b cs) sid = Some s'"
proof (induction cs arbitrary: b s)
  case Nil
  then show ?case by simp
next
  case (Cons c cs)
  from exec_keeps_session [OF Cons.prems, of c] obtain s1
    where "sessions (fst (exec sid b c)) sid = Some s1" by blast
  from Cons.IH [OF this] show ?case by simp
qed

lemma run_quiet:
  assumes "sessions b sid = Some s" "list_all quiet cs"
  shows "\<exists>s'. sessions (run sid b cs) sid = Some s' \<and> isRecording s' = isRecording s
           \<and> length (recordedSteps s')
                = length (recordedSteps s) + (if isRecording s then adds_all sid b cs else 0)
           \<and> (\<not> isRecording s \<longrightarrow> recordedSteps s' = recordedSteps s)"
  using assms
proof (induction cs arbitrary: b s)
  case Nil
  then show ?case by simp
next
  case (Cons c cs)
  from Cons.prems have q: "quiet c" and rest: "list_all quiet cs"
    by simp_all
  from exec_quiet [OF Cons.prems(1) q] obtain s1
    where s1: "sessions (fst (exec sid b c)) sid = Some s1" "isRecording s1 = isRecording s"
      "length (recordedSteps s1)
         = length (recordedSteps s) + (if isRecording s then adds sid b c else 0)"
      "\<not> isRecording s \<longrightarrow> recordedSteps s1 = recordedSteps s"
    by blast
  from Cons.IH [OF s1(1) rest] obtain s2
    where s2: "sessions (run sid (fst (exec sid b c)) cs) sid = Some s2"
      "isRecording s2 = isRecording s1"
      "length (recordedSteps s2) = length (recordedSteps s1)
         + (if isRecording s1 then adds_all sid (fst (exec sid b c)) cs else 0)"
      "\<not> isRecording s1 \<longrightarrow> recordedSteps s2 = recordedSteps s1"
    by blast
  from s1 s2 show ?case by auto
qed

text \<open>
  Claim C5, as amended. On a session, for a trace that starts the recording, goes on
  with calls and events that neither start nor stop it (the window), and stops the
  recording, whatever came before and whatever such calls and events come after:
  \<^item> \<open>startRecording\<close> leaves \<open>recordedSteps\<close> empty;
  \<^item> after \<open>stopRecording\<close>, the length of \<open>recordedSteps\<close> is what the calls and events
    of the window add: for an action, one step for each navigation that it sets off and
    for each action that the overlay reports during it, and one of its own if it
    completes; one for a navigation between the calls and one for an action that the
    overlay reports between the calls;
  \<^item> what comes after \<open>stopRecording\<close> leaves \<open>recordedSteps\<close> as it is;
  \<^item> an action that the browser carries out completes unless mapping its element or
    taking the screenshot throws; when it completes it returns its step, with the
    selector, the name and the value of the call, and the session has received, if it is
    recording, the steps of what the page sent and then that step, and nothing if it is
    not; when it does not complete it returns no step, and the session has received the
    steps of what the page sent at most.
\<close>

theorem recording_window:
  assumes "sessions b sid = Some s"
    and "list_all quiet window"
    and "list_all quiet post"
  shows "let b1 = run sid b (pre @ [(StartRecording, br1, t1)]);
             b3 = run sid b1 (window @ [(StopRecording, br2, t2)]);
             b4 = run sid b (pre @ [(StartRecording, br1, t1)] @ window
                               @ [(StopRecording, br2, t2)] @ post)
         in steps_of b1 sid = []
          \<and> length (steps_of b3 sid) = adds_all sid b1 window
          \<and> steps_of b4 sid = steps_of b3 sid
          \<and> (\<forall>c. is_action (fst c) \<and> quiet c \<longrightarrow>
                (completes sid b c \<longrightarrow>
                   (\<exists>step. snd (exec sid b c) = Some step \<and> step_of c step
                      \<and> steps_of (fst (exec sid b c)) sid
                           = steps_of b sid
                               @ (if isRecording s then arrived_steps c @ [step] else [])))
              \<and> (\<not> completes sid b c \<longrightarrow>
                   snd (exec sid b c) = None
                   \<and> steps_of (fst (exec sid b c)) sid
                        = steps_of b sid @ (if isRecording s then arrived_steps c else [])))"
proof -
  define b0 where "b0 = run sid b pre"
  define b1 where "b1 = run sid b (pre @ [(StartRecording, br1, t1)])"
  define b2 where "b2 = run sid b1 window"
  define b3 where "b3 = run sid b1 (window @ [(StopRecording, br2, t2)])"
  define b4 where "b4 = run sid b (pre @ [(StartRecording, br1, t1)] @ window
                                    @ [(StopRecording, br2, t2)] @ post)"
  from run_keeps_session [OF assms(1), of pre] obtain s0 where s0: "sessions b0 sid = Some s0"
    unfolding b0_def by blast
  have b1: "b1 = fst (exec sid b0 (StartRecording, br1, t1))"
    unfolding b1_def b0_def by (simp add: run_append)
  from startRecording_effect [OF s0, of br1 t1] obtain s1
    where s1: "sessions b1 sid = Some s1" "isRecording s1" "recordedSteps s1 = []"
    unfolding b1 by blast
  from run_quiet [OF s1(1) assms(2)] obtain s2
    where s2: "sessions b2 sid = Some s2" "isRecording s2"
      "length (recordedSteps s2) = adds_all sid b1 window"
    unfolding b2_def using s1 by auto
  have b3: "b3 = fst (exec sid b2 (StopRecording, br2, t2))"
    unfolding b3_def b2_def by (simp add: run_append)
  from stopRecording_effect [OF s2(1), of br2 t2] obtain s3
    where s3: "sessions b3 sid = Some s3" "\<not> isRecording s3" "recordedSteps s3 = recordedSteps s2"
    unfolding b3 by blast
  have b4: "b4 = run sid b3 post"
    unfolding b4_def b3_def b1_def by (simp add: run_append)
  from run_quiet [OF s3(1) assms(3)] obtain s4
    where s4: "sessions b4 sid = Some s4" "recordedSteps s4 = recordedSteps s3"
    unfolding b4 using s3 by auto
  have one: "(completes sid b c \<longrightarrow>
                   (\<exists>step. snd (exec sid b c) = Some step \<and> step_of c step
                      \<and> steps_of (fst (exec sid b c)) sid
                           = steps_of b sid
                               @ (if isRecording s then arrived_steps c @ [step] else [])))
              \<and> (\<not> completes sid b c \<longrightarrow>
                   snd (exec sid b c) = None
                   \<and> steps_of (fst (exec sid b c)) sid
                        = steps_of b sid @ (if isRecording s then arrived_steps c else []))"
    if "is_action (fst c) \<and> quiet c" for c
  proof -
    from that have a: "is_action (fst c)" and q: "quiet c" by simp_all
    from action_effect [OF assms(1) a q] obtain s' where
      "sessions (fst (exec sid b c)) sid = Some s'"
      "completes sid b c \<longrightarrow>
                (\<exists>step. snd (exec sid b c) = Some step \<and> step_of c step
                   \<and> recordedSteps s' = recordedSteps s
                        @ (if isRecording s then arrived_steps c @ [step] else []))"
      "\<not> completes sid b c \<longrightarrow>
                snd (exec sid b c) = None
                \<and> recordedSteps s' = recordedSteps s
                     @ (if isRecording s then arrived_steps c else [])"
      by blast
    with assms(1) show ?thesis
      by (simp add: steps_of_def)
  qed
  have "steps_of b1 sid = []" "length (steps_of b3 sid) = adds_all sid b1 window"
       "steps_of b4 sid = steps_of b3 sid"
    using s1 s2 s3 s4 by (simp_all add: steps_of_def)
  with one show ?thesis
    unfolding Let_def b1_def [symmetric] b3_def [symmetric] b4_def [symmetric]
    by blast
qed

lemmas recording_eval =
  startRecording_def stopRecording_def clickElement_def fillElement_def map_if_unmapped_def
  record_step_def put_session_def findElementIdBySelector_def truthy_def steps_of_def
  frame_navigated_def send_to_backend_def on_framenavigated_def on_message_def arrive_def
  navigate_step_def reported_step_def
  demo_builder_def demo_session_def demo_element_def moved_browser_def blank_browser_def
  link_browser_def blind_browser_def watched_browser_def
  decimal.simps digit_char_def char_eval Let_def

lemma demo_window_steps:
  "map action (steps_of (run ''s1'' (run ''s1'' demo_builder (demo_pre @ [(StartRecording, moved_browser, 11)]))
      (demo_window @ [(StopRecording, moved_browser, 18)])) ''s1'')
     = [Navigate, Click, Fill, Click, Click, Navigate]"
  by (simp add: demo_pre_def demo_window_def recording_eval)

text \<open>The demo trace: the click that follows a link adds two steps, the fill one, the
  click that finds nothing and the click without a screenshot none, the click that the
  overlay reports two, the navigation one.\<close>

theorem recording_window_witness:
  "map action (steps_of (run ''s1'' demo_builder
      (demo_pre @ [(StartRecording, moved_browser, 11)] @ demo_window
         @ [(StopRecording, moved_browser, 18)] @ demo_post)) ''s1'')
     = [Navigate, Click, Fill, Click, Click, Navigate]
   \<and> adds_all ''s1'' (run ''s1'' demo_builder (demo_pre @ [(StartRecording, moved_browser, 11)]))
         demo_window = 6"
proof -
  have s: "sessions demo_builder ''s1'' = Some demo_session"
    by (simp add: demo_builder_def)
  have w: "list_all quiet demo_window"
    by (simp add: demo_window_def moved_browser_def blank_browser_def link_browser_def
          blind_browser_def watched_browser_def)
  have p: "list_all quiet demo_post"
    by (simp add: demo_post_def moved_browser_def link_browser_def)
  let ?b1 = "run ''s1'' demo_builder (demo_pre @ [(StartRecording, moved_browser, 11)])"
  let ?b3 = "run ''s1'' ?b1 (demo_window @ [(StopRecording, moved_browser, 18)])"
  from recording_window [OF s w p, of demo_pre moved_browser 11 moved_browser 18]
  have a: "length (steps_of ?b3 ''s1'') = adds_all ''s1'' ?b1 demo_window"
    and b: "steps_of (run ''s1'' demo_builder
           (demo_pre @ [(StartRecording, moved_browser, 11)] @ demo_window
              @ [(StopRecording, moved_browser, 18)] @ demo_post)) ''s1'' = steps_of ?b3 ''s1''"
    unfolding Let_def by blast+
  have "length (map action (steps_of ?b3 ''s1'')) = 6"
    unfolding demo_window_steps by simp
  then have "adds_all ''s1'' ?b1 demo_window = 6"
    unfolding length_map a .
  moreover have "map action (steps_of (run ''s1'' demo_builder
      (demo_pre @ [(StartRecording, moved_browser, 11)] @ demo_window
         @ [(StopRecording, moved_browser, 18)] @ demo_post)) ''s1'')
     = [Navigate, Click, Fill, Click, Click, Navigate]"
    unfolding b by (rule demo_window_steps)
  ultimately show ?thesis by (intro conjI)
qed

text \<open>
  Claim C5 as first stated counts one step for each action. On the demo session, a
  recording that holds one click on a link ends with two steps, the step of the
  navigation and the step of the click; and a recording that holds one click after which
  the screenshot fails ends with none, though the browser has carried the click out.
\<close>

theorem navigating_click_counterexample:
  "map action (steps_of (run ''s1'' demo_builder
      [(StartRecording, moved_browser, 11), (ClickElement ''#a'' None, link_browser, 12),
       (StopRecording, moved_browser, 13)]) ''s1'') = [Navigate, Click]
   \<and> click_ok blind_browser ''#b''
   \<and> steps_of (run ''s1'' demo_builder
      [(StartRecording, moved_browser, 11), (ClickElement ''#b'' None, blind_browser, 12),
       (StopRecording, moved_browser, 13)]) ''s1'' = []"
  by (simp add: recording_eval)

section \<open>Ending a session twice\<close>

text \<open>
  Claim C6, as amended. Once \<open>endSession\<close> has returned for a session id, the id is
  unknown, and ending it again is a silent success: \<open>endSession\<close> returns without an
  exception and without a change of state, and the route answers 200 with
  \<open>success: true\<close> and the message \<open>Session ended\<close>.
\<close>

theorem end_session_twice:
  assumes "endSession b br sid = (b', Inr ())"
  shows "sessions b' sid = None
       \<and> endSession b' br2 sid = (b', Inr ())
       \<and> delete_session_route b' br2 sid
           = (b', \<lparr> status = 200, success = True, message = Some ''Session ended'',
                    error_text = None \<rparr>)"
proof -
  from assms have "sessions b' sid = None"
    by (auto simp: endSession_def split: option.splits if_splits)
  then show ?thesis
    by (simp add: endSession_def delete_session_route_def)
qed

text \<open>The demo session, ended and ended again.\<close>

theorem end_session_twice_witness:
  "endSession demo_builder moved_browser ''s1''
     = (demo_builder\<lparr> sessions := Map.empty \<rparr>, Inr ())
   \<and> endSession (demo_builder\<lparr> sessions := Map.empty \<rparr>) blank_browser ''s1''
     = (demo_builder\<lparr> sessions := Map.empty \<rparr>, Inr ())"
proof -
  have e: "endSession demo_builder moved_browser ''s1''
             = (demo_builder\<lparr> sessions := Map.empty \<rparr>, Inr ())"
    by (simp add: endSession_def demo_builder_def demo_session_def moved_browser_def truthy_def)
  from end_session_twice [OF e, of blank_browser] e show ?thesis
    by simp
qed

text \<open>
  Claim C6 as first stated has the second call answer with a Not Found error. On the
  demo session the second \<open>DELETE\<close> gets the same answer as the first: status 200 and
  \<open>success: true\<close>; \<open>endSession\<close> returns normally, since its guard for an unknown id
  is \<open>if (!session) return\<close>.
\<close>

theorem end_session_twice_counterexample:
  "sessions demo_builder ''s1'' = Some demo_session
   \<and> snd (delete_session_route demo_builder moved_browser ''s1'')
       = \<lparr> status = 200, success = True, message = Some ''Session ended'', error_text = None \<rparr>
   \<and> snd (endSession (fst (delete_session_route demo_builder moved_browser ''s1'')) moved_browser ''s1'')
       = Inr ()
   \<and> snd (delete_session_route (fst (delete_session_route demo_builder moved_browser ''s1''))
            moved_browser ''s1'')
       = \<lparr> status = 200, success = True, message = Some ''Session ended'', error_text = None \<rparr>"
  by (simp add: delete_session_route_def endSession_def demo_builder_def demo_session_def
        moved_browser_def truthy_def)

section \<open>Looking a page object up by URL\<close>

lemmas url_eval =
  generateUrlPattern_def url_pathname_def replace_numeric.simps is_digit_def backslash_def

lemmas regexp_eval =
  regexp_test_def compile.simps parse_atom.simps parse_quantifier.simps match_here.simps
  search.simps atom_matches.simps is_digit_def is_line_terminator_def backslash_def

lemma items_pattern:
  "generateUrlPattern ''http://shop.test/items/42'' = Inr (''/items/'' @ [backslash] @ ''d+'')"
  by (simp add: url_eval)

lemma search_pattern:
  "generateUrlPattern ''http://shop.test/search/foo+bar/42''
     = Inr (''/search/foo+bar/'' @ [backslash] @ ''d+'')"
  by (simp add: url_eval)

lemma cpp_pattern:
  "generateUrlPattern ''http://shop.test/c++/42'' = Inr (''/c++/'' @ [backslash] @ ''d+'')"
  by (simp add: url_eval)

lemma items_test:
  "regexp_test (''/items/'' @ [backslash] @ ''d+'') ''http://shop.test/items/99'' = Inr True"
  by (simp add: regexp_eval)

lemma search_test:
  "regexp_test (''/search/foo+bar/'' @ [backslash] @ ''d+'') ''http://shop.test/search/foo+bar/99''
     = Inr False"
  by (simp add: regexp_eval)

lemma cpp_test:
  "regexp_test (''/c++/'' @ [backslash] @ ''d+'') ''http://shop.test/c++/99'' = Inl SyntaxError"
  by (simp add: regexp_eval)

text \<open>
  Claim C4 at three stored page objects. The pattern made from \<open>/items/42\<close> finds
  \<open>/items/99\<close>. The path \<open>/search/foo+bar/42\<close> goes into the pattern as it is, where
  \<open>o+\<close> is a quantified \<open>o\<close>: the page object is found under its own URL and not
  under \<open>/search/foo+bar/99\<close>. The path \<open>/c++/42\<close> gives a pattern that the
  constructor rejects, and the lookup of another URL throws.
\<close>

theorem find_by_url_plus_in_path:
  "findPageObjectByUrl (repository_of (pom_for ''pom-1'' ''http://shop.test/items/42''))
       ''http://shop.test/items/99''
     = Inr (Some (pom_for ''pom-1'' ''http://shop.test/items/42''))
   \<and> findPageObjectByUrl (repository_of (pom_for ''pom-2'' ''http://shop.test/search/foo+bar/42''))
       ''http://shop.test/search/foo+bar/42''
     = Inr (Some (pom_for ''pom-2'' ''http://shop.test/search/foo+bar/42''))
   \<and> findPageObjectByUrl (repository_of (pom_for ''pom-2'' ''http://shop.test/search/foo+bar/42''))
       ''http://shop.test/search/foo+bar/99''
     = Inr None
   \<and> findPageObjectByUrl (repository_of (pom_for ''pom-3'' ''http://shop.test/c++/42''))
       ''http://shop.test/c++/99''
     = Inl SyntaxError"
  using items_pattern search_pattern cpp_pattern items_test search_test cpp_test
  by (simp add: findPageObjectByUrl_def repository_of_def pom_for_def truthy_def interp_def)

text \<open>The pattern of a plain path starts with a plain character.\<close>

lemma replace_numeric_head:
  "list_all plain p \<Longrightarrow> replace_numeric p = c # r \<Longrightarrow> plain c"
  by (cases p) (auto simp: plain_def backslash_def is_line_terminator_def split: if_splits)

lemma parse_quantifier_none:
  "(\<And>c r. s = c # r \<Longrightarrow> plain c \<or> c = backslash) \<Longrightarrow> parse_quantifier p s = Inr (p, s)"
  by (cases s) (auto simp: plain_def backslash_def)

lemma parse_atom_plain:
  "plain c \<Longrightarrow> parse_atom (c # s) = Inr (Atom (atom_of c) Once, s)"
  by (auto simp: plain_def atom_of_def)

lemma compile_plain_step:
  assumes "plain c" "\<And>d r. s = d # r \<Longrightarrow> plain d \<or> d = backslash" "compile s = Inr ps"
  shows "compile (c # s) = Inr (Atom (atom_of c) Once # ps)"
  using assms parse_quantifier_none [of s "Atom (atom_of c) Once"]
  by (subst compile.simps) (simp add: parse_atom_plain del: parse_atom.simps parse_quantifier.simps)

lemma compile_digits_step:
  assumes "\<And>d r. s = d # r \<Longrightarrow> plain d" "compile s = Inr ps"
  shows "compile (backslash # CHR ''d'' # CHR ''+'' # s) = Inr (Atom Digit Plus # ps)"
proof -
  have "parse_quantifier (Atom Digit Once) (CHR ''+'' # s) = Inr (Atom Digit Plus, s)"
    using assms(1) by (cases s) (auto simp: plain_def)
  with assms(2) show ?thesis
    by (subst compile.simps) (simp del: parse_quantifier.simps)
qed

lemma compile_replace_numeric:
  "list_all plain p \<Longrightarrow> compile (replace_numeric p) = Inr (pieces_of p)"
proof (induction p rule: replace_numeric.induct)
  case 1
  then show ?case by (simp add: compile.simps)
next
  case (2 c cs)
  show ?case
  proof (cases "c = CHR ''/'' \<and> cs \<noteq> [] \<and> is_digit (hd cs)")
    case True
    let ?rest = "dropWhile is_digit cs"
    from "2.prems" have "list_all plain ?rest"
      by (auto simp: list_all_iff dest: set_dropWhileD)
    with "2.IH"(1) True have ih: "compile (replace_numeric ?rest) = Inr (pieces_of ?rest)"
      by simp
    have head: "\<And>d r. replace_numeric ?rest = d # r \<Longrightarrow> plain d"
      using \<open>list_all plain ?rest\<close> replace_numeric_head by blast
    have "compile (backslash # CHR ''d'' # CHR ''+'' # replace_numeric ?rest)
            = Inr (Atom Digit Plus # pieces_of ?rest)"
      using head ih by (rule compile_digits_step)
    moreover have "plain CHR ''/''"
      by (simp add: plain_def backslash_def is_line_terminator_def)
    ultimately have "compile (CHR ''/'' # backslash # CHR ''d'' # CHR ''+'' # replace_numeric ?rest)
            = Inr (Atom (atom_of CHR ''/'') Once # Atom Digit Plus # pieces_of ?rest)"
      by (intro compile_plain_step) auto
    with True show ?thesis
      by (simp add: atom_of_def)
  next
    case False
    from "2.prems" have c: "plain c" and cs: "list_all plain cs" by simp_all
    from "2.IH"(2) False cs have ih: "compile (replace_numeric cs) = Inr (pieces_of cs)"
      by blast
    have "\<And>d r. replace_numeric cs = d # r \<Longrightarrow> plain d \<or> d = backslash"
      using cs replace_numeric_head by blast
    with c ih have "compile (c # replace_numeric cs) = Inr (Atom (atom_of c) Once # pieces_of cs)"
      by (intro compile_plain_step) auto
    with False show ?thesis by auto
  qed
qed

text \<open>A plain path matches its own pattern, whatever follows it.\<close>

lemma match_digits:
  "ds \<noteq> [] \<Longrightarrow> list_all is_digit ds \<Longrightarrow> match_here ps False s \<Longrightarrow>
     match_here (Atom Digit Plus # ps) b (ds @ s)"
proof (induction ds arbitrary: b)
  case Nil
  then show ?case by simp
next
  case (Cons d ds)
  then show ?case by (cases ds) auto
qed

lemma atom_of_matches: "plain c \<Longrightarrow> atom_matches (atom_of c) c"
  by (auto simp: atom_of_def plain_def)

lemma match_pieces_of:
  "list_all plain p \<Longrightarrow> match_here (pieces_of p) b (p @ s)"
proof (induction p arbitrary: b rule: pieces_of.induct)
  case 1
  then show ?case by simp
next
  case (2 c cs)
  show ?case
  proof (cases "c = CHR ''/'' \<and> cs \<noteq> [] \<and> is_digit (hd cs)")
    case True
    let ?ds = "takeWhile is_digit cs" and ?rest = "dropWhile is_digit cs"
    from "2.prems" have "list_all plain ?rest"
      by (auto simp: list_all_iff dest: set_dropWhileD)
    with "2.IH"(1) True have "match_here (pieces_of ?rest) False (?rest @ s)"
      by simp
    moreover from True have "?ds \<noteq> []"
      by (cases cs) auto
    moreover have "list_all is_digit ?ds"
      by (simp add: list_all_iff) (meson set_takeWhileD)
    ultimately have "match_here (Atom Digit Plus # pieces_of ?rest) False (?ds @ ?rest @ s)"
      by (intro match_digits)
    then have "match_here (Atom Digit Plus # pieces_of ?rest) False (cs @ s)"
      by (metis append.assoc takeWhile_dropWhile_id)
    with True show ?thesis by simp
  next
    case False
    from "2.prems" have c: "plain c" and cs: "list_all plain cs" by simp_all
    from "2.IH"(2) False cs have "match_here (pieces_of cs) False (cs @ s)"
      by blast
    with False c show ?thesis
      by (auto simp: atom_of_matches)
  qed
qed

lemma search_here: "match_here ps b s \<Longrightarrow> search ps b s"
  by (cases s) auto

lemma search_pieces_of:
  "list_all plain p \<Longrightarrow> search (pieces_of p) b (pre @ p @ post)"
proof (induction pre arbitrary: b)
  case Nil
  then show ?case
    using match_pieces_of [of p b post] by (simp add: search_here)
next
  case (Cons c pre)
  then show ?case by simp
qed

lemma url_pathname_nonempty: "url_pathname url = Some p \<Longrightarrow> p \<noteq> []"
  by (auto simp: url_pathname_def Let_def split: if_splits)

lemma url_pathname_substring:
  assumes "url_pathname url = Some p"
  shows "\<exists>pre post. url = pre @ p @ post"
proof -
  define scheme where "scheme = takeWhile (\<lambda>c. c \<noteq> CHR '':'') url"
  define rest where "rest = dropWhile (\<lambda>c. c \<noteq> CHR '':'') url"
  define authority where "authority = takeWhile (\<lambda>c. c \<notin> set ''/?#'') (drop 3 rest)"
  define after where "after = dropWhile (\<lambda>c. c \<notin> set ''/?#'') (drop 3 rest)"
  define path where "path = takeWhile (\<lambda>c. c \<notin> set ''?#'') after"
  from assms have t: "take 3 rest = ''://''" and p: "p = (if path = [] then ''/'' else path)"
    by (auto simp: url_pathname_def Let_def scheme_def rest_def after_def path_def split: if_splits)
  have url: "url = scheme @ rest"
    by (simp add: scheme_def rest_def)
  have rest: "rest = ''://'' @ drop 3 rest"
    using t by (metis append_take_drop_id)
  have d: "drop 3 rest = authority @ after"
    by (simp add: authority_def after_def)
  have a: "after = path @ dropWhile (\<lambda>c. c \<notin> set ''?#'') after"
    by (simp add: path_def)
  show ?thesis
  proof (cases "path = []")
    case True
    with p have "p = ''/''" by simp
    moreover have "url = (scheme @ '':'') @ ''/'' @ (''/'' @ drop 3 rest)"
      using url rest by (metis append.assoc append_Cons append_Nil)
    ultimately show ?thesis by blast
  next
    case False
    with p have "p = path" by simp
    moreover have "url = (scheme @ ''://'' @ authority) @ path @ dropWhile (\<lambda>c. c \<notin> set ''?#'') after"
      using url rest d a by (metis append.assoc)
    ultimately show ?thesis by blast
  qed
qed

lemma replace_numeric_nonempty: "p \<noteq> [] \<Longrightarrow> replace_numeric p \<noteq> []"
  by (cases p) auto

text \<open>
  Where the lookup does what claim C4 says: when the paths of both URLs are made of
  plain characters and give the same pattern (they differ in the digits after a slash
  only), the page object stored for the first URL is found for the second.
\<close>

lemma lookup_after_numbers_change:
  assumes "url_pathname url1 = Some p1" "url_pathname url2 = Some p2"
    and "list_all plain p1" "list_all plain p2"
    and "replace_numeric p2 = replace_numeric p1"
  shows "findPageObjectByUrl (repository_of (pom_for pid url1)) url2 = Inr (Some (pom_for pid url1))"
proof -
  from url_pathname_substring [OF assms(2)] obtain pre post where url2: "url2 = pre @ p2 @ post"
    by blast
  have "compile (replace_numeric p1) = Inr (pieces_of p2)"
    using compile_replace_numeric [OF assms(4)] assms(5) by simp
  moreover have "search (pieces_of p2) True url2"
    unfolding url2 using assms(4) by (rule search_pieces_of)
  ultimately have "regexp_test (replace_numeric p1) url2 = Inr True"
    by (simp add: regexp_test_def)
  moreover have "replace_numeric p1 \<noteq> []"
    using assms(1) url_pathname_nonempty replace_numeric_nonempty by blast
  ultimately show ?thesis
    using assms(1)
    by (simp add: findPageObjectByUrl_def repository_of_def pom_for_def generateUrlPattern_def
          truthy_def interp_def)
qed

end
